theory Spec2Isabelle
  imports Main "HOL-Library.Multiset" "HOL-Library.Sublist"
begin

section \<open>The worker pool of implementations/04\_workerpool.cpp\<close>

text \<open>
  The class \<^verbatim>\<open>ThreadPool\<close> owns a stop flag, a vector of worker threads, a queue of
  jobs, one mutex \<^verbatim>\<open>mu\<close> and one condition variable \<^verbatim>\<open>cv\<close>. Its three operations
  (constructor, \<^verbatim>\<open>enqueue\<close>, destructor) and the private \<^verbatim>\<open>worker_loop\<close> run in different
  threads. The embedding is an interleaving transition system: every thread is at a
  sequence point of the function it runs, one step executes the statement at that point,
  and a scheduler (the list of actions of a run) picks the thread that moves next. The
  mutex is a field of the state (its owner); the condition variable is the set of workers
  blocked in \<^verbatim>\<open>cv.wait\<close>. Nothing in a step takes mutual exclusion for granted: the steps
  inside a critical section do not test the owner of the mutex, and that they run under
  exclusive access is proved as an invariant.

  What the embedding takes from the C++ library rather than from this file: a mutex has
  at most one owner and \<^verbatim>\<open>lock\<close> blocks while it has one; \<^verbatim>\<open>wait(lock)\<close> releases the mutex
  and blocks in one atomic step, and takes the mutex again before it returns;
  \<^verbatim>\<open>notify_one\<close> unblocks one blocked thread if there is one, \<^verbatim>\<open>notify_all\<close> all of them, and
  a blocked thread may also wake spuriously; \<^verbatim>\<open>join\<close> blocks until the thread has ended.
  A job is opaque: the call \<^verbatim>\<open>job()\<close> is one step, taken when the call returns. A job
  that never returns, or a fault that ends the process, is a run in which that worker, or
  every thread, takes no further step. Memory is sequentially consistent (all shared
  accesses of the source are under \<^verbatim>\<open>mu\<close>).
\<close>

subsection \<open>Threads and their sequence points\<close>

text \<open>The threads that can own \<^verbatim>\<open>mu\<close>: the thread that destroys the pool, the worker
  threads (by index in \<^verbatim>\<open>workers\<close>) and the threads that call \<^verbatim>\<open>enqueue\<close>.\<close>

datatype tid = Destroyer | Worker nat | Caller nat

text \<open>
  Sequence points of \<^verbatim>\<open>worker_loop\<close> (the statement executed next, with its source line):
  \<^item> \<open>W_Lock\<close>: line 38, \<^verbatim>\<open>unique_lock<mutex> lock(mu)\<close> at the top of \<^verbatim>\<open>while (true)\<close>;
  \<^item> \<open>W_Wait\<close>: lines 41-42, \<^verbatim>\<open>cv.wait(lock, pred)\<close>, which is \<^verbatim>\<open>while (!pred()) wait(lock)\<close>:
    the predicate is evaluated with the mutex held;
  \<^item> \<open>W_Blocked\<close>: inside \<^verbatim>\<open>wait(lock)\<close>, the mutex released, blocked on \<^verbatim>\<open>cv\<close>;
  \<^item> \<open>W_Woken\<close>: unblocked (by a notification or spuriously), about to take the mutex
    again before \<^verbatim>\<open>wait(lock)\<close> returns;
  \<^item> \<open>W_Test\<close>: line 44, \<^verbatim>\<open>if (stop && jobs.empty()) return\<close>;
  \<^item> \<open>W_Fetch\<close>: lines 48-49, \<^verbatim>\<open>job = move(jobs.front()); jobs.pop()\<close>;
  \<^item> \<open>W_Unlock job\<close>: line 52, \<^verbatim>\<open>lock.unlock()\<close>;
  \<^item> \<open>W_Job job\<close>: line 55, \<^verbatim>\<open>job()\<close>;
  \<^item> \<open>W_Returned\<close>: the function has returned (line 45) and the thread has ended.
\<close>

datatype 'j wpc =
    W_Lock | W_Wait | W_Blocked | W_Woken | W_Test | W_Fetch
  | W_Unlock 'j | W_Job 'j | W_Returned

text \<open>
  Sequence points of one call \<^verbatim>\<open>enqueue(job)\<close>: \<open>E_Lock\<close> line 82 (\<^verbatim>\<open>lock_guard\<close>),
  \<open>E_Push\<close> line 85, \<open>E_Unlock\<close> line 86 (the end of the inner scope), \<open>E_Notify\<close> line 89.
\<close>

datatype 'j epc = E_Lock 'j | E_Push 'j | E_Unlock | E_Notify

text \<open>
  Sequence points of the destructor: \<open>D_Lock\<close> line 98, \<open>D_Stop\<close> line 99, \<open>D_Unlock\<close>
  line 100, \<open>D_Notify\<close> line 103, \<open>D_Join i\<close> lines 105-107 at element \<open>i\<close> of \<^verbatim>\<open>workers\<close>,
  \<open>D_Returned\<close> after the loop.
\<close>

datatype dpc = D_Lock | D_Stop | D_Unlock | D_Notify | D_Join nat | D_Returned

subsection \<open>The state\<close>

text \<open>
  The members of the class, the control state of the threads, and four history
  variables. The history variables are only written, never read by a step that decides
  control flow: \<open>early\<close> and \<open>late\<close> log every executed \<^verbatim>\<open>jobs.push\<close> (with the calling
  thread) in order, split by the value of \<^verbatim>\<open>stop\<close> at the push; \<open>popped\<close> logs every
  \<^verbatim>\<open>jobs.pop\<close> and \<open>executed\<close> every finished call \<^verbatim>\<open>job()\<close>, each with the worker.
\<close>

record 'j pool =
  stop :: bool
  workers :: "'j wpc list"
  joinable :: "bool list"
  jobs :: "'j list"
  mu :: "tid option"
  callers :: "nat \<Rightarrow> 'j epc option"
  dtor :: dpc
  early :: "(nat \<times> 'j) list"
  late :: "(nat \<times> 'j) list"
  popped :: "(nat \<times> 'j) list"
  executed :: "(nat \<times> 'j) list"

text \<open>A step that cannot be taken: the thread is blocked (or is not at a sequence point
  of that function), or the step is \<^verbatim>\<open>front\<close>/\<^verbatim>\<open>pop\<close> on an empty \<^verbatim>\<open>std::queue\<close>, which is
  undefined behaviour.\<close>

datatype halt = Not_enabled | Pop_on_empty

subsection \<open>The constructor\<close>

text \<open>
  \<^verbatim>\<open>ThreadPool(int numOfWorkers) : stop(false) { for (int i = 0; i < numOfWorkers; i++) workers.emplace_back(...); }\<close>
  The loop counter never passes \<^verbatim>\<open>numOfWorkers\<close>, so it cannot overflow and \<open>int\<close>
  stands for the C++ \<^verbatim>\<open>int\<close>. Each \<^verbatim>\<open>emplace_back\<close> starts a joinable thread at the top of
  \<^verbatim>\<open>worker_loop\<close>. A worker started by one iteration may run while the loop is still
  spawning; it touches nothing the loop touches, and no other thread can reach the pool
  before the constructor returns, so the pool at the return is the one with every worker
  at the top of its loop, and what the workers did meanwhile are the first steps of a run.
\<close>

function spawn :: "int \<Rightarrow> int \<Rightarrow> 'j pool \<Rightarrow> 'j pool" where
  "spawn i numOfWorkers s =
     (if i < numOfWorkers
      then spawn (i + 1) numOfWorkers
             (s\<lparr>workers := workers s @ [W_Lock], joinable := joinable s @ [True]\<rparr>)
      else s)"
  by pat_completeness auto

termination
  by (relation "measure (\<lambda>(i, n, s). nat (n - i))") auto

declare spawn.simps [simp del]

definition members :: "'j pool" where
  "members =
     \<lparr>stop = False, workers = [], joinable = [], jobs = [], mu = None,
      callers = (\<lambda>c. None), dtor = D_Lock,
      early = [], late = [], popped = [], executed = []\<rparr>"

definition ThreadPool :: "int \<Rightarrow> 'j pool" where
  "ThreadPool numOfWorkers = spawn 0 numOfWorkers members"

subsection \<open>The condition variable\<close>

text \<open>
  \<^verbatim>\<open>notify_one\<close> unblocks one of the threads blocked on \<^verbatim>\<open>cv\<close> if there is any; which
  one is the choice \<open>ch\<close> of the scheduler. \<^verbatim>\<open>notify_all\<close> unblocks all of them.
\<close>

definition notify_one :: "nat option \<Rightarrow> 'j wpc list \<Rightarrow> 'j wpc list option" where
  "notify_one ch ws =
     (case ch of
        Some w \<Rightarrow> if w < length ws \<and> ws ! w = W_Blocked then Some (ws[w := W_Woken]) else None
      | None \<Rightarrow> if W_Blocked \<in> set ws then None else Some ws)"

definition notify_all :: "'j wpc list \<Rightarrow> 'j wpc list" where
  "notify_all ws = map (\<lambda>p. if p = W_Blocked then W_Woken else p) ws"

subsection \<open>worker\_loop\<close>

definition worker_loop :: "nat \<Rightarrow> 'j pool \<Rightarrow> halt + 'j pool" where
  "worker_loop w s =
     (if w < length (workers s) then
        (case workers s ! w of
           W_Lock \<Rightarrow>
             if mu s = None
             then Inr (s\<lparr>mu := Some (Worker w), workers := (workers s)[w := W_Wait]\<rparr>)
             else Inl Not_enabled
         | W_Wait \<Rightarrow>
             if stop s \<or> jobs s \<noteq> []
             then Inr (s\<lparr>workers := (workers s)[w := W_Test]\<rparr>)
             else Inr (s\<lparr>mu := None, workers := (workers s)[w := W_Blocked]\<rparr>)
         | W_Blocked \<Rightarrow> Inl Not_enabled
         | W_Woken \<Rightarrow>
             if mu s = None
             then Inr (s\<lparr>mu := Some (Worker w), workers := (workers s)[w := W_Wait]\<rparr>)
             else Inl Not_enabled
         | W_Test \<Rightarrow>
             if stop s \<and> jobs s = []
             then Inr (s\<lparr>mu := None, workers := (workers s)[w := W_Returned]\<rparr>)
             else Inr (s\<lparr>workers := (workers s)[w := W_Fetch]\<rparr>)
         | W_Fetch \<Rightarrow>
             (case jobs s of
                [] \<Rightarrow> Inl Pop_on_empty
              | job # rest \<Rightarrow>
                  Inr (s\<lparr>jobs := rest, workers := (workers s)[w := W_Unlock job],
                         popped := popped s @ [(w, job)]\<rparr>))
         | W_Unlock job \<Rightarrow> Inr (s\<lparr>mu := None, workers := (workers s)[w := W_Job job]\<rparr>)
         | W_Job job \<Rightarrow>
             Inr (s\<lparr>workers := (workers s)[w := W_Lock],
                    executed := executed s @ [(w, job)]\<rparr>)
         | W_Returned \<Rightarrow> Inl Not_enabled)
      else Inl Not_enabled)"

text \<open>A spurious wake-up: a blocked worker is unblocked with no notification.\<close>

definition spurious :: "nat \<Rightarrow> 'j pool \<Rightarrow> halt + 'j pool" where
  "spurious w s =
     (if w < length (workers s) \<and> workers s ! w = W_Blocked
      then Inr (s\<lparr>workers := (workers s)[w := W_Woken]\<rparr>)
      else Inl Not_enabled)"

subsection \<open>enqueue\<close>

text \<open>A thread \<open>c\<close> that is not inside \<^verbatim>\<open>enqueue\<close> calls \<^verbatim>\<open>enqueue(job)\<close>.\<close>

definition call_enqueue :: "nat \<Rightarrow> 'j \<Rightarrow> 'j pool \<Rightarrow> halt + 'j pool" where
  "call_enqueue c job s =
     (case callers s c of
        None \<Rightarrow> Inr (s\<lparr>callers := (callers s)(c \<mapsto> E_Lock job)\<rparr>)
      | Some p \<Rightarrow> Inl Not_enabled)"

definition enqueue :: "nat \<Rightarrow> nat option \<Rightarrow> 'j pool \<Rightarrow> halt + 'j pool" where
  "enqueue c ch s =
     (case callers s c of
        None \<Rightarrow> Inl Not_enabled
      | Some (E_Lock job) \<Rightarrow>
          if mu s = None
          then Inr (s\<lparr>mu := Some (Caller c), callers := (callers s)(c \<mapsto> E_Push job)\<rparr>)
          else Inl Not_enabled
      | Some (E_Push job) \<Rightarrow>
          Inr (if stop s
               then s\<lparr>jobs := jobs s @ [job], callers := (callers s)(c \<mapsto> E_Unlock),
                       late := late s @ [(c, job)]\<rparr>
               else s\<lparr>jobs := jobs s @ [job], callers := (callers s)(c \<mapsto> E_Unlock),
                       early := early s @ [(c, job)]\<rparr>)
      | Some E_Unlock \<Rightarrow> Inr (s\<lparr>mu := None, callers := (callers s)(c \<mapsto> E_Notify)\<rparr>)
      | Some E_Notify \<Rightarrow>
          (case notify_one ch (workers s) of
             None \<Rightarrow> Inl Not_enabled
           | Some ws \<Rightarrow> Inr (s\<lparr>workers := ws, callers := (callers s)(c := None)\<rparr>)))"

subsection \<open>The destructor\<close>

text \<open>
  \<^verbatim>\<open>w.join()\<close> blocks until worker \<open>w\<close> has returned and leaves the thread object not
  joinable; an element that is not joinable is skipped (\<^verbatim>\<open>if (w.joinable())\<close>). After the
  destructor has returned the object is gone; the model still lets the other threads take
  steps, so what is proved of every run holds of the runs that stop there as well.
\<close>

definition destructor :: "'j pool \<Rightarrow> halt + 'j pool" where
  "destructor s =
     (case dtor s of
        D_Lock \<Rightarrow>
          if mu s = None then Inr (s\<lparr>mu := Some Destroyer, dtor := D_Stop\<rparr>)
          else Inl Not_enabled
      | D_Stop \<Rightarrow> Inr (s\<lparr>stop := True, dtor := D_Unlock\<rparr>)
      | D_Unlock \<Rightarrow> Inr (s\<lparr>mu := None, dtor := D_Notify\<rparr>)
      | D_Notify \<Rightarrow> Inr (s\<lparr>workers := notify_all (workers s), dtor := D_Join 0\<rparr>)
      | D_Join i \<Rightarrow>
          if i < length (workers s) then
            (if joinable s ! i then
               (if workers s ! i = W_Returned
                then Inr (s\<lparr>joinable := (joinable s)[i := False], dtor := D_Join (i + 1)\<rparr>)
                else Inl Not_enabled)
             else Inr (s\<lparr>dtor := D_Join (i + 1)\<rparr>))
          else Inr (s\<lparr>dtor := D_Returned\<rparr>)
      | D_Returned \<Rightarrow> Inl Not_enabled)"

subsection \<open>Runs\<close>

text \<open>The scheduler's choices: which thread takes its next step.\<close>

datatype 'j action =
    Work nat | Wake nat | Call nat 'j | Enq nat "nat option" | Dtor

fun step :: "'j action \<Rightarrow> 'j pool \<Rightarrow> halt + 'j pool" where
  "step (Work w) s = worker_loop w s"
| "step (Wake w) s = spurious w s"
| "step (Call c job) s = call_enqueue c job s"
| "step (Enq c ch) s = enqueue c ch s"
| "step Dtor s = destructor s"

fun run :: "'j action list \<Rightarrow> 'j pool \<Rightarrow> halt + 'j pool" where
  "run [] s = Inr s"
| "run (a # as) s = (case step a s of Inl e \<Rightarrow> Inl e | Inr s' \<Rightarrow> run as s')"

subsection \<open>Invariants\<close>

text \<open>
  A thread is inside a critical section when it stands at a sequence point between
  taking \<^verbatim>\<open>mu\<close> and releasing it. Mutual exclusion: the threads inside a critical
  section are exactly the owner of the mutex, so there is at most one.
\<close>

fun wheld :: "'j wpc \<Rightarrow> bool" where
  "wheld W_Wait = True"
| "wheld W_Test = True"
| "wheld W_Fetch = True"
| "wheld (W_Unlock job) = True"
| "wheld p = False"

fun eheld :: "'j epc option \<Rightarrow> bool" where
  "eheld (Some (E_Push job)) = True"
| "eheld (Some E_Unlock) = True"
| "eheld p = False"

fun dheld :: "dpc \<Rightarrow> bool" where
  "dheld D_Stop = True"
| "dheld D_Unlock = True"
| "dheld p = False"

fun critical :: "'j pool \<Rightarrow> tid \<Rightarrow> bool" where
  "critical s Destroyer = dheld (dtor s)"
| "critical s (Worker w) = (w < length (workers s) \<and> wheld (workers s ! w))"
| "critical s (Caller c) = eheld (callers s c)"

definition mutex_inv :: "'j pool \<Rightarrow> bool" where
  "mutex_inv s = (\<forall>t. critical s t = (mu s = Some t))"

text \<open>
  After \<^verbatim>\<open>cv.wait\<close> has returned the wait predicate holds, and at \<^verbatim>\<open>jobs.front()\<close> the queue is
  not empty.
\<close>

definition guard_inv :: "'j pool \<Rightarrow> bool" where
  "guard_inv s =
     (\<forall>w<length (workers s).
        (workers s ! w = W_Test \<longrightarrow> stop s \<or> jobs s \<noteq> []) \<and>
        (workers s ! w = W_Fetch \<longrightarrow> jobs s \<noteq> []))"

text \<open>
  The flag is set exactly from the destructor's line 99 on; a worker has only returned
  with the flag set; no push was logged as late while the flag was false.
\<close>

definition stop_inv :: "'j pool \<Rightarrow> bool" where
  "stop_inv s =
     ((stop s = (dtor s \<noteq> D_Lock \<and> dtor s \<noteq> D_Stop)) \<and>
      (\<forall>w<length (workers s). workers s ! w = W_Returned \<longrightarrow> stop s) \<and>
      (\<not> stop s \<longrightarrow> late s = []))"

text \<open>
  The log of all pushes in push order: the flag is never reset, so every push logged in
  \<open>late\<close> came after every push logged in \<open>early\<close>.
\<close>

definition submitted :: "'j pool \<Rightarrow> (nat \<times> 'j) list" where
  "submitted s = early s @ late s"

text \<open>
  The jobs pushed are the jobs popped followed by the queue; the jobs popped are the jobs
  executed and the jobs a worker holds between \<^verbatim>\<open>jobs.pop()\<close> and the end of \<^verbatim>\<open>job()\<close>; once
  a worker has returned, every job pushed before the flag was set has been popped.
\<close>

definition fifo_inv :: "'j pool \<Rightarrow> bool" where
  "fifo_inv s = (map snd (submitted s) = map snd (popped s) @ jobs s)"

fun holding :: "nat \<times> 'j wpc \<Rightarrow> (nat \<times> 'j) list" where
  "holding (w, W_Unlock job) = [(w, job)]"
| "holding (w, W_Job job) = [(w, job)]"
| "holding (w, p) = []"

definition in_flight :: "'j pool \<Rightarrow> (nat \<times> 'j) list" where
  "in_flight s = concat (map holding (enumerate 0 (workers s)))"

definition conserve_inv :: "'j pool \<Rightarrow> bool" where
  "conserve_inv s =
     (mset (popped s) = mset (executed s) + mset (in_flight s))"

definition drain_inv :: "'j pool \<Rightarrow> bool" where
  "drain_inv s =
     ((\<exists>w<length (workers s). workers s ! w = W_Returned) \<longrightarrow>
        length (early s) \<le> length (popped s))"

text \<open>
  The join loop: the elements of \<^verbatim>\<open>workers\<close> before the index have returned and those from
  the index on are still joinable; after \<^verbatim>\<open>notify_all\<close> no worker is blocked.
\<close>

definition join_inv :: "'j pool \<Rightarrow> bool" where
  "join_inv s =
     (length (joinable s) = length (workers s) \<and>
      (case dtor s of
         D_Join i \<Rightarrow>
           i \<le> length (workers s) \<and> (\<forall>k<i. workers s ! k = W_Returned) \<and>
           (\<forall>k<length (workers s). i \<le> k \<longrightarrow> joinable s ! k)
       | D_Returned \<Rightarrow> (\<forall>k<length (workers s). workers s ! k = W_Returned)
       | _ \<Rightarrow> (\<forall>k<length (workers s). joinable s ! k)))"

fun notified :: "dpc \<Rightarrow> bool" where
  "notified (D_Join i) = True"
| "notified D_Returned = True"
| "notified p = False"

definition awake_inv :: "'j pool \<Rightarrow> bool" where
  "awake_inv s = (notified (dtor s) \<longrightarrow> (\<forall>k<length (workers s). workers s ! k \<noteq> W_Blocked))"

definition pool_inv :: "'j pool \<Rightarrow> bool" where
  "pool_inv s =
     (mutex_inv s \<and> guard_inv s \<and> stop_inv s \<and> fifo_inv s \<and> conserve_inv s \<and>
      drain_inv s \<and> join_inv s \<and> awake_inv s)"

text \<open>A pool without workers never dequeues or executes anything.\<close>

definition idle_inv :: "'j pool \<Rightarrow> bool" where
  "idle_inv s = (workers s = [] \<and> popped s = [] \<and> executed s = [])"

subsection \<open>The worker states and the per-thread order of the specification\<close>

text \<open>The three worker states of the specification, as sets of sequence points: a worker is
  Waiting from the top of the loop until \<^verbatim>\<open>cv.wait\<close> returns, Running from line 44 to the end of
  \<^verbatim>\<open>job()\<close>, Stopped once it has returned.\<close>

datatype phase = Waiting | Running | Stopped

fun phase_of :: "'j wpc \<Rightarrow> phase" where
  "phase_of W_Lock = Waiting"
| "phase_of W_Wait = Waiting"
| "phase_of W_Blocked = Waiting"
| "phase_of W_Woken = Waiting"
| "phase_of W_Test = Running"
| "phase_of W_Fetch = Running"
| "phase_of (W_Unlock job) = Running"
| "phase_of (W_Job job) = Running"
| "phase_of W_Returned = Stopped"

text \<open>
  The jobs of one calling thread in a log of (thread, job) entries.
\<close>

definition jobs_of :: "nat \<Rightarrow> (nat \<times> 'j) list \<Rightarrow> 'j list" where
  "jobs_of c log = map snd (filter (\<lambda>e. fst e = c) log)"

subsection \<open>Scenarios\<close>

text \<open>
  Concrete runs, used to evaluate the theorems below on inputs. Job 7 stands for any
  callable.
\<close>

text \<open>
  One worker, one caller: the caller submits job 7 and the worker runs it; then the pool
  is destroyed, the worker observes the flag with the queue empty and returns, and the
  destructor joins it.
\<close>

definition scenario1 :: "nat action list" where
  "scenario1 =
     [Call 0 7, Enq 0 None, Enq 0 None, Enq 0 None, Enq 0 None,
      Work 0, Work 0, Work 0, Work 0, Work 0, Work 0,
      Dtor, Dtor, Dtor, Dtor, Work 0, Work 0, Work 0, Dtor, Dtor]"

definition final1 :: "nat pool" where
  "final1 = projr (run scenario1 (ThreadPool 1))"

text \<open>The first scenario up to the point where the worker is about to test
  \<^verbatim>\<open>stop && jobs.empty()\<close> after the flag was set, and the step that follows.\<close>

definition scenario2 :: "nat action list" where
  "scenario2 = take 17 scenario1"

definition before2 :: "nat pool" where
  "before2 = projr (run scenario2 (ThreadPool 1))"

definition after2 :: "nat pool" where
  "after2 = projr (step (Work 0) before2)"

text \<open>
  A worker blocks on the empty queue of the fresh pool and wakes spuriously: it takes the
  mutex again, evaluates the predicate, finds it false and blocks again. Then a caller
  submits job 7 and notifies the worker: it takes the mutex again, evaluates the
  predicate, finds it true and goes on to line 44. \<open>state3 k\<close> is the state after the
  first \<open>k\<close> steps.
\<close>

definition scenario3 :: "nat action list" where
  "scenario3 =
     [Work 0, Work 0, Wake 0, Work 0, Work 0,
      Call 0 7, Enq 0 None, Enq 0 None, Enq 0 None, Enq 0 (Some 0),
      Work 0, Work 0]"

definition state3 :: "nat \<Rightarrow> nat pool" where
  "state3 k = projr (run (take k scenario3) (ThreadPool 1))"

text \<open>Two workers block on the empty queue; the destructor takes the mutex, sets the stop flag
  and releases the mutex; then a thread calls \<^verbatim>\<open>enqueue(7)\<close>, and its \<^verbatim>\<open>notify_one\<close> wakes
  worker 0. \<open>state4 k\<close> is the state after the first \<open>k\<close> steps.\<close>

definition scenario4 :: "nat action list" where
  "scenario4 =
     [Work 0, Work 0, Work 1, Work 1, Dtor, Dtor, Dtor,
      Call 0 7, Enq 0 None, Enq 0 None, Enq 0 None, Enq 0 (Some 0)]"

definition state4 :: "nat \<Rightarrow> nat pool" where
  "state4 k = projr (run (take k scenario4) (ThreadPool 2))"

text \<open>Two workers block on the empty queue; the pool is destroyed; both workers are woken,
  find the flag set and the queue empty, and return; the destructor joins them in order.
  \<open>state5 k\<close> is the state after the first \<open>k\<close> steps.\<close>

definition scenario5 :: "nat action list" where
  "scenario5 =
     [Work 0, Work 0, Work 1, Work 1, Dtor, Dtor, Dtor, Dtor,
      Work 0, Work 0, Work 0, Work 1, Work 1, Work 1, Dtor, Dtor, Dtor]"

definition state5 :: "nat \<Rightarrow> nat pool" where
  "state5 k = projr (run (take k scenario5) (ThreadPool 2))"

text \<open>The first scenario up to the point where the worker stands at lines 48-49 with job 7 in
  the queue.\<close>

definition scenario6 :: "nat action list" where
  "scenario6 = take 8 scenario1"

definition state6 :: "nat pool" where
  "state6 = projr (run scenario6 (ThreadPool 1))"

text \<open>Caller 0 submits jobs 7 and 8, caller 1 submits job 9; worker 0 dequeues a job, then
  worker 1 does.\<close>

definition scenario8 :: "nat action list" where
  "scenario8 =
     [Call 0 7, Enq 0 None, Enq 0 None, Enq 0 None, Enq 0 None,
      Call 0 8, Enq 0 None, Enq 0 None, Enq 0 None, Enq 0 None,
      Call 1 9, Enq 1 None, Enq 1 None, Enq 1 None, Enq 1 None,
      Work 0, Work 0, Work 0, Work 0, Work 0,
      Work 1, Work 1, Work 1, Work 1, Work 1]"

definition state8 :: "nat pool" where
  "state8 = projr (run scenario8 (ThreadPool 2))"

text \<open>
  One caller submits job 7 and then job 8 to a pool of two workers; worker 0 dequeues
  job 7 and releases the mutex, and before it calls the job, worker 1 dequeues job 8 and
  runs it.
\<close>

definition scenario8b :: "nat action list" where
  "scenario8b =
     [Call 0 7, Enq 0 None, Enq 0 None, Enq 0 None, Enq 0 None,
      Call 0 8, Enq 0 None, Enq 0 None, Enq 0 None, Enq 0 None,
      Work 0, Work 0, Work 0, Work 0, Work 0,
      Work 1, Work 1, Work 1, Work 1, Work 1, Work 1]"

definition state8b :: "nat pool" where
  "state8b = projr (run scenario8b (ThreadPool 2))"

text \<open>A pool constructed with \<open>numOfWorkers = 0\<close>: a caller submits job 7, then the pool is
  destroyed.\<close>

definition scenario10 :: "nat action list" where
  "scenario10 = [Call 0 7, Enq 0 None, Enq 0 None, Enq 0 None, Enq 0 None]"

definition state10 :: "nat pool" where
  "state10 = projr (run scenario10 (ThreadPool 0))"

definition final10 :: "nat pool" where
  "final10 = projr (run [Dtor, Dtor, Dtor, Dtor, Dtor] state10)"

section \<open>Basic facts\<close>

subsection \<open>Runs and steps\<close>

lemma run_append:
  "run (as @ bs) s = (case run as s of Inl e \<Rightarrow> Inl e | Inr s' \<Rightarrow> run bs s')"
  by (induction as arbitrary: s) (auto split: sum.splits)

lemma run_invariant:
  assumes "run as s0 = Inr s" and "P s0"
    and "\<And>a s s'. P s \<Longrightarrow> step a s = Inr s' \<Longrightarrow> P s'"
  shows "P s"
  using assms(1,2)
proof (induction as arbitrary: s0)
  case Nil
  then show ?case by simp
next
  case (Cons a as)
  then obtain s1 where 1: "step a s0 = Inr s1" and 2: "run as s1 = Inr s"
    by (auto split: sum.splits)
  show ?case by (rule Cons.IH[OF 2 assms(3)[OF Cons.prems(2) 1]])
qed

lemma step_cases:
  assumes "step a s = Inr s'"
  obtains
    (Work) w where "a = Work w" "worker_loop w s = Inr s'"
  | (Wake) w where "a = Wake w" "spurious w s = Inr s'"
  | (Call) c job where "a = Call c job" "call_enqueue c job s = Inr s'"
  | (Enq) c ch where "a = Enq c ch" "enqueue c ch s = Inr s'"
  | (Dtor) "a = Dtor" "destructor s = Inr s'"
  using assms by (cases a) auto

text \<open>
  The enabled steps of each function, one case per branch of the source.
\<close>

lemma worker_loop_cases:
  assumes "worker_loop w s = Inr s'"
  obtains
    (lock) "w < length (workers s)" "workers s ! w = W_Lock" "mu s = None"
      "s' = s\<lparr>mu := Some (Worker w), workers := (workers s)[w := W_Wait]\<rparr>"
  | (pass) "w < length (workers s)" "workers s ! w = W_Wait" "stop s \<or> jobs s \<noteq> []"
      "s' = s\<lparr>workers := (workers s)[w := W_Test]\<rparr>"
  | (block) "w < length (workers s)" "workers s ! w = W_Wait" "\<not> stop s" "jobs s = []"
      "s' = s\<lparr>mu := None, workers := (workers s)[w := W_Blocked]\<rparr>"
  | (relock) "w < length (workers s)" "workers s ! w = W_Woken" "mu s = None"
      "s' = s\<lparr>mu := Some (Worker w), workers := (workers s)[w := W_Wait]\<rparr>"
  | (return) "w < length (workers s)" "workers s ! w = W_Test" "stop s" "jobs s = []"
      "s' = s\<lparr>mu := None, workers := (workers s)[w := W_Returned]\<rparr>"
  | (stay) "w < length (workers s)" "workers s ! w = W_Test" "\<not> (stop s \<and> jobs s = [])"
      "s' = s\<lparr>workers := (workers s)[w := W_Fetch]\<rparr>"
  | (fetch) job rest where "w < length (workers s)" "workers s ! w = W_Fetch"
      "jobs s = job # rest"
      "s' = s\<lparr>jobs := rest, workers := (workers s)[w := W_Unlock job],
                 popped := popped s @ [(w, job)]\<rparr>"
  | (unlock) job where "w < length (workers s)" "workers s ! w = W_Unlock job"
      "s' = s\<lparr>mu := None, workers := (workers s)[w := W_Job job]\<rparr>"
  | (job) job where "w < length (workers s)" "workers s ! w = W_Job job"
      "s' = s\<lparr>workers := (workers s)[w := W_Lock], executed := executed s @ [(w, job)]\<rparr>"
proof (cases "w < length (workers s)")
  case False
  with assms show ?thesis by (simp add: worker_loop_def)
next
  case True
  show ?thesis
  proof (cases "workers s ! w")
    case W_Lock
    with True assms lock show ?thesis by (simp add: worker_loop_def split: if_splits)
  next
    case W_Wait
    with True assms pass block show ?thesis by (simp add: worker_loop_def split: if_splits)
  next
    case W_Blocked
    with True assms show ?thesis by (simp add: worker_loop_def)
  next
    case W_Woken
    with True assms relock show ?thesis by (simp add: worker_loop_def split: if_splits)
  next
    case W_Test
    with True assms return stay show ?thesis by (simp add: worker_loop_def split: if_splits)
  next
    case W_Fetch
    with True assms fetch show ?thesis by (simp add: worker_loop_def split: list.splits)
  next
    case (W_Unlock job)
    with True assms unlock show ?thesis by (simp add: worker_loop_def)
  next
    case (W_Job job)
    with True assms job show ?thesis by (simp add: worker_loop_def)
  next
    case W_Returned
    with True assms show ?thesis by (simp add: worker_loop_def)
  qed
qed

lemma spurious_cases:
  assumes "spurious w s = Inr s'"
  obtains "w < length (workers s)" "workers s ! w = W_Blocked"
    "s' = s\<lparr>workers := (workers s)[w := W_Woken]\<rparr>"
  using assms by (simp add: spurious_def split: if_splits)

lemma call_enqueue_cases:
  assumes "call_enqueue c job s = Inr s'"
  obtains "callers s c = None" "s' = s\<lparr>callers := (callers s)(c \<mapsto> E_Lock job)\<rparr>"
  using assms by (simp add: call_enqueue_def split: option.splits)

lemma enqueue_cases:
  assumes "enqueue c ch s = Inr s'"
  obtains
    (lock) job where "callers s c = Some (E_Lock job)" "mu s = None"
      "s' = s\<lparr>mu := Some (Caller c), callers := (callers s)(c \<mapsto> E_Push job)\<rparr>"
  | (push_late) job where "callers s c = Some (E_Push job)" "stop s"
      "s' = s\<lparr>jobs := jobs s @ [job], callers := (callers s)(c \<mapsto> E_Unlock),
                 late := late s @ [(c, job)]\<rparr>"
  | (push_early) job where "callers s c = Some (E_Push job)" "\<not> stop s"
      "s' = s\<lparr>jobs := jobs s @ [job], callers := (callers s)(c \<mapsto> E_Unlock),
                 early := early s @ [(c, job)]\<rparr>"
  | (unlock) "callers s c = Some E_Unlock"
      "s' = s\<lparr>mu := None, callers := (callers s)(c \<mapsto> E_Notify)\<rparr>"
  | (notify) w where "callers s c = Some E_Notify" "ch = Some w" "w < length (workers s)"
      "workers s ! w = W_Blocked"
      "s' = s\<lparr>workers := (workers s)[w := W_Woken], callers := (callers s)(c := None)\<rparr>"
  | (nobody) "callers s c = Some E_Notify" "ch = None" "W_Blocked \<notin> set (workers s)"
      "s' = s\<lparr>callers := (callers s)(c := None)\<rparr>"
proof (cases "callers s c")
  case None
  with assms show ?thesis by (simp add: enqueue_def)
next
  case (Some p)
  show ?thesis
  proof (cases p)
    case (E_Lock job)
    with Some assms lock show ?thesis by (simp add: enqueue_def split: if_splits)
  next
    case (E_Push job)
    with Some assms push_late push_early show ?thesis
      by (cases "stop s") (simp_all add: enqueue_def)
  next
    case E_Unlock
    with Some assms unlock show ?thesis by (simp add: enqueue_def)
  next
    case E_Notify
    show ?thesis
    proof (cases ch)
      case None
      with E_Notify Some assms nobody show ?thesis
        by (simp add: enqueue_def notify_one_def split: if_splits)
    next
      case (Some w)
      with E_Notify \<open>callers s c = Some p\<close> assms notify show ?thesis
        by (simp add: enqueue_def notify_one_def split: if_splits)
    qed
  qed
qed

lemma destructor_cases:
  assumes "destructor s = Inr s'"
  obtains
    (lock) "dtor s = D_Lock" "mu s = None" "s' = s\<lparr>mu := Some Destroyer, dtor := D_Stop\<rparr>"
  | (stop) "dtor s = D_Stop" "s' = s\<lparr>stop := True, dtor := D_Unlock\<rparr>"
  | (unlock) "dtor s = D_Unlock" "s' = s\<lparr>mu := None, dtor := D_Notify\<rparr>"
  | (notify) "dtor s = D_Notify"
      "s' = s\<lparr>workers := notify_all (workers s), dtor := D_Join 0\<rparr>"
  | (join) i where "dtor s = D_Join i" "i < length (workers s)" "joinable s ! i"
      "workers s ! i = W_Returned"
      "s' = s\<lparr>joinable := (joinable s)[i := False], dtor := D_Join (i + 1)\<rparr>"
  | (skip) i where "dtor s = D_Join i" "i < length (workers s)" "\<not> joinable s ! i"
      "s' = s\<lparr>dtor := D_Join (i + 1)\<rparr>"
  | (leave) i where "dtor s = D_Join i" "\<not> i < length (workers s)"
      "s' = s\<lparr>dtor := D_Returned\<rparr>"
proof (cases "dtor s")
  case D_Lock
  with assms lock show ?thesis by (simp add: destructor_def split: if_splits)
next
  case D_Stop
  with assms stop show ?thesis by (simp add: destructor_def)
next
  case D_Unlock
  with assms unlock show ?thesis by (simp add: destructor_def)
next
  case D_Notify
  with assms notify show ?thesis by (simp add: destructor_def)
next
  case (D_Join i)
  with assms join skip leave show ?thesis by (simp add: destructor_def split: if_splits)
next
  case D_Returned
  with assms show ?thesis by (simp add: destructor_def)
qed

subsection \<open>The condition variable\<close>

lemma length_notify_all [simp]: "length (notify_all ws) = length ws"
  by (simp add: notify_all_def)

lemma nth_notify_all:
  "k < length ws \<Longrightarrow> notify_all ws ! k = (if ws ! k = W_Blocked then W_Woken else ws ! k)"
  by (simp add: notify_all_def)

lemma notify_all_awake: "k < length ws \<Longrightarrow> notify_all ws ! k \<noteq> W_Blocked"
  by (simp add: nth_notify_all)

lemma notify_one_enabled: "\<exists>ch ws'. notify_one ch ws = Some ws'"
proof (cases "W_Blocked \<in> set ws")
  case True
  then obtain w where "w < length ws" "ws ! w = W_Blocked"
    by (auto simp: in_set_conv_nth)
  then have "notify_one (Some w) ws = Some (ws[w := W_Woken])"
    by (simp add: notify_one_def)
  then show ?thesis by blast
next
  case False
  then have "notify_one None ws = Some ws" by (simp add: notify_one_def)
  then show ?thesis by blast
qed

lemma notify_one_wakes_one:
  assumes "notify_one ch ws = Some ws'"
  shows "if W_Blocked \<in> set ws
         then \<exists>w<length ws. ws ! w = W_Blocked \<and> ws' = ws[w := W_Woken]
         else ws' = ws"
proof (cases ch)
  case None
  with assms show ?thesis by (simp add: notify_one_def split: if_splits)
next
  case (Some w)
  with assms have "w < length ws" "ws ! w = W_Blocked" "ws' = ws[w := W_Woken]"
    by (auto simp: notify_one_def split: if_splits)
  moreover from this have "W_Blocked \<in> set ws" by (auto simp: in_set_conv_nth)
  ultimately show ?thesis by auto
qed

subsection \<open>The constructor\<close>

lemma spawn_workers: "workers (spawn i n s) = workers s @ replicate (nat (n - i)) W_Lock"
proof (induction i n s rule: spawn.induct)
  case (1 i n s)
  show ?case
  proof (cases "i < n")
    case True
    then have "nat (n - i) = Suc (nat (n - (i + 1)))" by simp
    with True 1 show ?thesis
      by (subst spawn.simps) (simp add: replicate_app_Cons_same)
  next
    case False
    then show ?thesis by (subst spawn.simps) simp
  qed
qed

lemma spawn_joinable: "joinable (spawn i n s) = joinable s @ replicate (nat (n - i)) True"
proof (induction i n s rule: spawn.induct)
  case (1 i n s)
  show ?case
  proof (cases "i < n")
    case True
    then have "nat (n - i) = Suc (nat (n - (i + 1)))" by simp
    with True 1 show ?thesis
      by (subst spawn.simps) (simp add: replicate_app_Cons_same)
  next
    case False
    then show ?thesis by (subst spawn.simps) simp
  qed
qed

lemma spawn_rest:
  "stop (spawn i n s) = stop s" "jobs (spawn i n s) = jobs s" "mu (spawn i n s) = mu s"
  "callers (spawn i n s) = callers s" "dtor (spawn i n s) = dtor s"
  "early (spawn i n s) = early s" "late (spawn i n s) = late s"
  "popped (spawn i n s) = popped s" "executed (spawn i n s) = executed s"
  by (induction i n s rule: spawn.induct; subst spawn.simps; simp)+

lemma ThreadPool_simps:
  "stop (ThreadPool n) = False"
  "workers (ThreadPool n) = replicate (nat n) W_Lock"
  "joinable (ThreadPool n) = replicate (nat n) True"
  "jobs (ThreadPool n) = []"
  "mu (ThreadPool n) = None"
  "callers (ThreadPool n) = (\<lambda>c. None)"
  "dtor (ThreadPool n) = D_Lock"
  "early (ThreadPool n) = []" "late (ThreadPool n) = []"
  "popped (ThreadPool n) = []" "executed (ThreadPool n) = []"
  by (simp_all add: ThreadPool_def spawn_workers spawn_joinable spawn_rest members_def)

lemma length_workers_step:
  assumes "step a s = Inr s'"
  shows "length (workers s') = length (workers s)"
proof (cases a)
  case (Work w)
  with assms have "worker_loop w s = Inr s'" by simp
  then show ?thesis by (cases rule: worker_loop_cases) auto
next
  case (Wake w)
  with assms have "spurious w s = Inr s'" by simp
  then show ?thesis by (cases rule: spurious_cases) auto
next
  case (Call c job)
  with assms have "call_enqueue c job s = Inr s'" by simp
  then show ?thesis by (cases rule: call_enqueue_cases) auto
next
  case (Enq c ch)
  with assms have "enqueue c ch s = Inr s'" by simp
  then show ?thesis by (cases rule: enqueue_cases) auto
next
  case Dtor
  with assms have "destructor s = Inr s'" by simp
  then show ?thesis by (cases rule: destructor_cases) auto
qed

lemma length_workers_run: "run as (ThreadPool n) = Inr s \<Longrightarrow> length (workers s) = nat n"
  by (rule run_invariant[where P = "\<lambda>s. length (workers s) = nat n"])
    (auto simp: ThreadPool_simps length_workers_step)

section \<open>The invariants hold in every reachable state\<close>

subsection \<open>Mutual exclusion\<close>

lemma mutex_inv_init: "mutex_inv (ThreadPool n)"
  unfolding mutex_inv_def
proof
  fix t show "critical (ThreadPool n) t = (mu (ThreadPool n) = Some t)"
    by (cases t) (simp_all add: ThreadPool_simps)
qed

lemma mutex_inv_worker:
  assumes "mutex_inv s" "worker_loop w s = Inr s'"
  shows "mutex_inv s'"
  unfolding mutex_inv_def
proof
  fix t
  from assms(1) have c: "critical s t = (mu s = Some t)"
    by (simp add: mutex_inv_def)
  have cw: "(w < length (workers s) \<and> wheld (workers s ! w)) = (mu s = Some (Worker w))"
    using assms(1)[unfolded mutex_inv_def, rule_format, of "Worker w"] by simp
  show "critical s' t = (mu s' = Some t)"
    using assms(2) c cw
    by (cases t) (auto simp: worker_loop_def nth_list_update split: if_splits wpc.splits list.splits)
qed

lemma mutex_inv_spurious:
  assumes "mutex_inv s" "spurious w s = Inr s'"
  shows "mutex_inv s'"
  unfolding mutex_inv_def
proof
  fix t
  from assms(1) have c: "critical s t = (mu s = Some t)"
    by (simp add: mutex_inv_def)
  show "critical s' t = (mu s' = Some t)"
    using assms(2) c
    by (cases t) (auto simp: spurious_def nth_list_update split: if_splits)
qed

lemma mutex_inv_call:
  assumes "mutex_inv s" "call_enqueue c job s = Inr s'"
  shows "mutex_inv s'"
  unfolding mutex_inv_def
proof
  fix t
  from assms(1) have c: "critical s t = (mu s = Some t)"
    by (simp add: mutex_inv_def)
  show "critical s' t = (mu s' = Some t)"
    using assms(2) c
    by (cases t) (auto simp: call_enqueue_def split: option.splits if_splits)
qed

lemma mutex_inv_enqueue:
  assumes "mutex_inv s" "enqueue c ch s = Inr s'"
  shows "mutex_inv s'"
  unfolding mutex_inv_def
proof
  fix t
  from assms(1) have c: "critical s t = (mu s = Some t)"
    by (simp add: mutex_inv_def)
  have cw: "eheld (callers s c) = (mu s = Some (Caller c))"
    using assms(1)[unfolded mutex_inv_def, rule_format, of "Caller c"] by simp
  show "critical s' t = (mu s' = Some t)"
    using assms(2) c cw
    by (cases t) (auto simp: enqueue_def notify_one_def nth_list_update split: if_splits option.splits epc.splits)
qed

lemma mutex_inv_destructor:
  assumes "mutex_inv s" "destructor s = Inr s'"
  shows "mutex_inv s'"
  unfolding mutex_inv_def
proof
  fix t
  from assms(1) have c: "critical s t = (mu s = Some t)"
    by (simp add: mutex_inv_def)
  have cw: "dheld (dtor s) = (mu s = Some Destroyer)"
    using assms(1)[unfolded mutex_inv_def, rule_format, of "Destroyer"] by simp
  show "critical s' t = (mu s' = Some t)"
    using assms(2) c cw
    by (cases t) (auto simp: destructor_def nth_notify_all split: if_splits dpc.splits)
qed

lemma mutex_inv_step: "mutex_inv s \<Longrightarrow> step a s = Inr s' \<Longrightarrow> mutex_inv s'"
  by (cases a) (auto intro: mutex_inv_worker mutex_inv_spurious mutex_inv_call mutex_inv_enqueue mutex_inv_destructor)

lemma mutex_inv_worker_owner:
  "mutex_inv s \<Longrightarrow> k < length (workers s) \<Longrightarrow> wheld (workers s ! k) \<Longrightarrow> mu s = Some (Worker k)"
  unfolding mutex_inv_def using critical.simps(2) by blast

lemma mutex_inv_caller_owner:
  "mutex_inv s \<Longrightarrow> eheld (callers s c) \<Longrightarrow> mu s = Some (Caller c)"
  unfolding mutex_inv_def using critical.simps(3) by blast

lemma mutex_inv_destroyer_owner:
  "mutex_inv s \<Longrightarrow> dheld (dtor s) \<Longrightarrow> mu s = Some Destroyer"
  unfolding mutex_inv_def using critical.simps(1) by blast

lemma critical_unique:
  assumes "mutex_inv s" "mu s = Some t" "critical s u"
  shows "u = t"
  using assms by (simp add: mutex_inv_def)

subsection \<open>The wait predicate and the stop flag\<close>

lemma guard_inv_worker:
  assumes "guard_inv s" "mutex_inv s" "worker_loop w s = Inr s'"
  shows "guard_inv s'"
  using assms(3)
proof (cases rule: worker_loop_cases)
  case (fetch job rest)
  have "k = w" if "k < length (workers s)" "wheld (workers s ! k)" for k
    using mutex_inv_worker_owner[OF assms(2) that] mutex_inv_worker_owner[OF assms(2), of w] fetch
    by simp
  then have "workers s ! k \<noteq> W_Test \<and> workers s ! k \<noteq> W_Fetch" if "k < length (workers s)" "k \<noteq> w" for k
    using that by (metis wheld.simps(2,3))
  with fetch show ?thesis
    by (simp add: guard_inv_def nth_list_update)
qed (use assms(1) in \<open>auto simp: guard_inv_def nth_list_update\<close>)

lemma guard_inv_enqueue:
  assumes "guard_inv s" "enqueue c ch s = Inr s'"
  shows "guard_inv s'"
  using assms(2)
  by (cases rule: enqueue_cases) (use assms(1) in \<open>auto simp: guard_inv_def nth_list_update\<close>)

lemma guard_inv_destructor:
  assumes "guard_inv s" "destructor s = Inr s'"
  shows "guard_inv s'"
  using assms(2)
  by (cases rule: destructor_cases) (use assms(1) in \<open>auto simp: guard_inv_def nth_notify_all\<close>)

lemma guard_inv_step:
  assumes "guard_inv s" "mutex_inv s" "step a s = Inr s'"
  shows "guard_inv s'"
proof (cases a)
  case (Work w)
  with assms show ?thesis by (simp add: guard_inv_worker)
next
  case (Wake w)
  with assms(3) have "spurious w s = Inr s'" by simp
  then show ?thesis
    by (cases rule: spurious_cases) (use assms(1) in \<open>auto simp: guard_inv_def nth_list_update\<close>)
next
  case (Call c job)
  with assms(3) have "call_enqueue c job s = Inr s'" by simp
  then show ?thesis
    by (cases rule: call_enqueue_cases) (use assms(1) in \<open>auto simp: guard_inv_def\<close>)
next
  case (Enq c ch)
  with assms show ?thesis by (simp add: guard_inv_enqueue)
next
  case Dtor
  with assms show ?thesis by (simp add: guard_inv_destructor)
qed

lemma stop_inv_step:
  assumes "stop_inv s" "step a s = Inr s'"
  shows "stop_inv s'"
proof (cases a)
  case (Work w)
  with assms(2) have "worker_loop w s = Inr s'" by simp
  then show ?thesis
    by (cases rule: worker_loop_cases) (use assms(1) in \<open>auto simp: stop_inv_def nth_list_update\<close>)
next
  case (Wake w)
  with assms(2) have "spurious w s = Inr s'" by simp
  then show ?thesis
    by (cases rule: spurious_cases) (use assms(1) in \<open>auto simp: stop_inv_def nth_list_update\<close>)
next
  case (Call c job)
  with assms(2) have "call_enqueue c job s = Inr s'" by simp
  then show ?thesis
    by (cases rule: call_enqueue_cases) (use assms(1) in \<open>auto simp: stop_inv_def\<close>)
next
  case (Enq c ch)
  with assms(2) have "enqueue c ch s = Inr s'" by simp
  then show ?thesis
    by (cases rule: enqueue_cases) (use assms(1) in \<open>auto simp: stop_inv_def nth_list_update\<close>)
next
  case Dtor
  with assms(2) have "destructor s = Inr s'" by simp
  then show ?thesis
    by (cases rule: destructor_cases) (use assms(1) in \<open>auto simp: stop_inv_def nth_notify_all\<close>)
qed

lemma stop_step:
  assumes "step a s = Inr s'"
  shows "(stop s \<longrightarrow> stop s') \<and> (stop s' \<noteq> stop s \<longrightarrow> a = Dtor \<and> dtor s = D_Stop \<and> stop s')"
  using assms
proof (cases rule: step_cases)
  case (Work w)
  from Work(2) show ?thesis by (cases rule: worker_loop_cases) auto
next
  case (Wake w)
  from Wake(2) show ?thesis by (cases rule: spurious_cases) auto
next
  case (Call c job)
  from Call(2) show ?thesis by (cases rule: call_enqueue_cases) auto
next
  case (Enq c ch)
  from Enq(2) show ?thesis by (cases rule: enqueue_cases) auto
next
  case Dtor
  from Dtor(2) show ?thesis by (cases rule: destructor_cases) (use Dtor(1) in auto)
qed

lemma stop_run: "run as s = Inr t \<Longrightarrow> stop s \<Longrightarrow> stop t"
  by (rule run_invariant[where P = stop]) (use stop_step in blast)+

subsection \<open>The logs\<close>

lemma fifo_inv_step:
  assumes "fifo_inv s" "stop_inv s" "step a s = Inr s'"
  shows "fifo_inv s'"
proof (cases a)
  case (Work w)
  with assms(3) have "worker_loop w s = Inr s'" by simp
  then show ?thesis
    by (cases rule: worker_loop_cases) (use assms(1) in \<open>auto simp: fifo_inv_def submitted_def\<close>)
next
  case (Wake w)
  with assms(3) have "spurious w s = Inr s'" by simp
  then show ?thesis
    by (cases rule: spurious_cases) (use assms(1) in \<open>auto simp: fifo_inv_def submitted_def\<close>)
next
  case (Call c job)
  with assms(3) have "call_enqueue c job s = Inr s'" by simp
  then show ?thesis
    by (cases rule: call_enqueue_cases) (use assms(1) in \<open>auto simp: fifo_inv_def submitted_def\<close>)
next
  case (Enq c ch)
  with assms(3) have "enqueue c ch s = Inr s'" by simp
  then show ?thesis
    by (cases rule: enqueue_cases) (use assms(1,2) in \<open>auto simp: fifo_inv_def submitted_def stop_inv_def\<close>)
next
  case Dtor
  with assms(3) have "destructor s = Inr s'" by simp
  then show ?thesis
    by (cases rule: destructor_cases) (use assms(1) in \<open>auto simp: fifo_inv_def submitted_def\<close>)
qed

lemma mset_holding_update:
  "w < length ws \<Longrightarrow>
   mset (concat (map holding (enumerate k (ws[w := p])))) + mset (holding (k + w, ws ! w)) =
   mset (concat (map holding (enumerate k ws))) + mset (holding (k + w, p))"
proof (induction ws arbitrary: w k)
  case Nil
  then show ?case by simp
next
  case (Cons a ws)
  show ?case
  proof (cases w)
    case 0
    then show ?thesis by simp
  next
    case (Suc v)
    with Cons.prems have "v < length ws" by simp
    from Cons.IH[OF this, of "Suc k"] Suc show ?thesis by simp
  qed
qed

lemma in_flight_update:
  assumes "w < length (workers s)"
  shows "mset (in_flight (s\<lparr>workers := (workers s)[w := p]\<rparr>)) + mset (holding (w, workers s ! w)) =
         mset (in_flight s) + mset (holding (w, p))"
  using mset_holding_update[OF assms, of 0] by (simp add: in_flight_def)

lemma holding_notify_all:
  "concat (map holding (enumerate k (notify_all ws))) = concat (map holding (enumerate k ws))"
  by (induction ws arbitrary: k) (auto simp: notify_all_def)

lemma in_flight_init: "in_flight (ThreadPool n) = []"
  by (auto simp: in_flight_def ThreadPool_simps in_set_enumerate_eq)

lemma in_flight_returned:
  assumes "\<forall>k<length (workers s). workers s ! k = W_Returned"
  shows "in_flight s = []"
  using assms by (auto simp: in_flight_def in_set_enumerate_eq)

lemma conserve_inv_worker:
  assumes "conserve_inv s" "worker_loop w s = Inr s'"
  shows "conserve_inv s'"
  using assms(2)
proof (cases rule: worker_loop_cases)
  case lock
  with in_flight_update[OF lock(1), of W_Wait] assms(1) show ?thesis
    by (simp add: conserve_inv_def in_flight_def)
next
  case pass
  with in_flight_update[OF pass(1), of W_Test] assms(1) show ?thesis
    by (simp add: conserve_inv_def in_flight_def)
next
  case block
  with in_flight_update[OF block(1), of W_Blocked] assms(1) show ?thesis
    by (simp add: conserve_inv_def in_flight_def)
next
  case relock
  with in_flight_update[OF relock(1), of W_Wait] assms(1) show ?thesis
    by (simp add: conserve_inv_def in_flight_def)
next
  case return
  with in_flight_update[OF return(1), of W_Returned] assms(1) show ?thesis
    by (simp add: conserve_inv_def in_flight_def)
next
  case stay
  with in_flight_update[OF stay(1), of W_Fetch] assms(1) show ?thesis
    by (simp add: conserve_inv_def in_flight_def)
next
  case (fetch job rest)
  with in_flight_update[OF fetch(1), of "W_Unlock job"] assms(1) show ?thesis
    by (simp add: conserve_inv_def in_flight_def)
next
  case (unlock job)
  with in_flight_update[OF unlock(1), of "W_Job job"] assms(1) show ?thesis
    by (simp add: conserve_inv_def in_flight_def)
next
  case (job job)
  with in_flight_update[OF job(1), of W_Lock] assms(1) show ?thesis
    by (simp add: conserve_inv_def in_flight_def)
qed

lemma conserve_inv_step:
  assumes "conserve_inv s" "step a s = Inr s'"
  shows "conserve_inv s'"
proof (cases a)
  case (Work w)
  with assms show ?thesis by (simp add: conserve_inv_worker)
next
  case (Wake w)
  with assms(2) have "spurious w s = Inr s'" by simp
  then show ?thesis
  proof (cases rule: spurious_cases)
    case 1
    with in_flight_update[OF 1(1), of W_Woken] assms(1) show ?thesis
      by (simp add: conserve_inv_def in_flight_def)
  qed
next
  case (Call c job)
  with assms(2) have "call_enqueue c job s = Inr s'" by simp
  then show ?thesis
    by (cases rule: call_enqueue_cases) (use assms(1) in \<open>auto simp: conserve_inv_def in_flight_def\<close>)
next
  case (Enq c ch)
  with assms(2) have "enqueue c ch s = Inr s'" by simp
  then show ?thesis
  proof (cases rule: enqueue_cases)
    case (notify w)
    with in_flight_update[OF notify(3), of W_Woken] assms(1) show ?thesis
      by (simp add: conserve_inv_def in_flight_def)
  qed (use assms(1) in \<open>auto simp: conserve_inv_def in_flight_def\<close>)
next
  case Dtor
  with assms(2) have "destructor s = Inr s'" by simp
  then show ?thesis
    by (cases rule: destructor_cases)
      (use assms(1) in \<open>auto simp: conserve_inv_def in_flight_def holding_notify_all\<close>)
qed

lemma drain_inv_step:
  assumes "drain_inv s" "fifo_inv s" "stop_inv s" "step a s = Inr s'"
  shows "drain_inv s'"
proof (cases a)
  case (Work w)
  with assms(4) have "worker_loop w s = Inr s'" by simp
  then show ?thesis
  proof (cases rule: worker_loop_cases)
    case return
    from assms(2) return have "length (early s) + length (late s) = length (popped s)"
      unfolding fifo_inv_def submitted_def by (metis append_Nil2 length_append length_map)
    with return show ?thesis by (simp add: drain_inv_def)
  qed (use assms(1) in \<open>auto simp: drain_inv_def nth_list_update split: if_splits\<close>)
next
  case (Wake w)
  with assms(4) have "spurious w s = Inr s'" by simp
  then show ?thesis
    by (cases rule: spurious_cases) (use assms(1) in \<open>auto simp: drain_inv_def nth_list_update split: if_splits\<close>)
next
  case (Call c job)
  with assms(4) have "call_enqueue c job s = Inr s'" by simp
  then show ?thesis
    by (cases rule: call_enqueue_cases) (use assms(1) in \<open>auto simp: drain_inv_def\<close>)
next
  case (Enq c ch)
  with assms(4) have "enqueue c ch s = Inr s'" by simp
  then show ?thesis
    by (cases rule: enqueue_cases)
      (use assms(1,3) in \<open>auto simp: drain_inv_def stop_inv_def nth_list_update split: if_splits\<close>)
next
  case Dtor
  with assms(4) have "destructor s = Inr s'" by simp
  then show ?thesis
    by (cases rule: destructor_cases)
      (use assms(1) in \<open>auto simp: drain_inv_def nth_notify_all split: if_splits\<close>)
qed

subsection \<open>The join loop\<close>

lemma join_inv_step:
  assumes "join_inv s" "step a s = Inr s'"
  shows "join_inv s'"
proof (cases a)
  case (Work w)
  with assms(2) have "worker_loop w s = Inr s'" by simp
  then show ?thesis
    by (cases rule: worker_loop_cases)
      (use assms(1) in \<open>auto simp: join_inv_def nth_list_update split: dpc.splits\<close>)
next
  case (Wake w)
  with assms(2) have "spurious w s = Inr s'" by simp
  then show ?thesis
    by (cases rule: spurious_cases)
      (use assms(1) in \<open>auto simp: join_inv_def nth_list_update split: dpc.splits\<close>)
next
  case (Call c job)
  with assms(2) have "call_enqueue c job s = Inr s'" by simp
  then show ?thesis
    by (cases rule: call_enqueue_cases) (use assms(1) in \<open>auto simp: join_inv_def split: dpc.splits\<close>)
next
  case (Enq c ch)
  with assms(2) have "enqueue c ch s = Inr s'" by simp
  then show ?thesis
    by (cases rule: enqueue_cases)
      (use assms(1) in \<open>auto simp: join_inv_def nth_list_update split: dpc.splits\<close>)
next
  case Dtor
  with assms(2) have "destructor s = Inr s'" by simp
  then show ?thesis
  proof (cases rule: destructor_cases)
    case (join i)
    with assms(1) show ?thesis
      by (auto simp: join_inv_def nth_list_update less_Suc_eq)
  next
    case (skip i)
    with assms(1) show ?thesis
      by (auto simp: join_inv_def less_Suc_eq)
  next
    case (leave i)
    with assms(1) show ?thesis
      by (auto simp: join_inv_def)
  qed (use assms(1) in \<open>auto simp: join_inv_def nth_notify_all\<close>)
qed

lemma awake_inv_step:
  assumes "awake_inv s" "stop_inv s" "step a s = Inr s'"
  shows "awake_inv s'"
proof (cases a)
  case (Work w)
  with assms(3) have "worker_loop w s = Inr s'" by simp
  then show ?thesis
    by (cases rule: worker_loop_cases)
      (use assms(1,2) in \<open>auto simp: awake_inv_def stop_inv_def nth_list_update\<close>)
next
  case (Wake w)
  with assms(3) have "spurious w s = Inr s'" by simp
  then show ?thesis
    by (cases rule: spurious_cases)
      (use assms(1) in \<open>auto simp: awake_inv_def nth_list_update\<close>)
next
  case (Call c job)
  with assms(3) have "call_enqueue c job s = Inr s'" by simp
  then show ?thesis
    by (cases rule: call_enqueue_cases) (use assms(1) in \<open>auto simp: awake_inv_def\<close>)
next
  case (Enq c ch)
  with assms(3) have "enqueue c ch s = Inr s'" by simp
  then show ?thesis
    by (cases rule: enqueue_cases)
      (use assms(1) in \<open>auto simp: awake_inv_def nth_list_update\<close>)
next
  case Dtor
  with assms(3) have "destructor s = Inr s'" by simp
  then show ?thesis
    by (cases rule: destructor_cases)
      (use assms(1) in \<open>auto simp: awake_inv_def nth_notify_all\<close>)
qed

lemma idle_inv_step:
  assumes "idle_inv s" "step a s = Inr s'"
  shows "idle_inv s'"
  using assms(2)
proof (cases rule: step_cases)
  case (Work w)
  from Work(2) show ?thesis
    by (cases rule: worker_loop_cases) (use assms(1) in \<open>auto simp: idle_inv_def\<close>)
next
  case (Wake w)
  from Wake(2) show ?thesis
    by (cases rule: spurious_cases) (use assms(1) in \<open>auto simp: idle_inv_def\<close>)
next
  case (Call c job)
  from Call(2) show ?thesis
    by (cases rule: call_enqueue_cases) (use assms(1) in \<open>auto simp: idle_inv_def\<close>)
next
  case (Enq c ch)
  from Enq(2) show ?thesis
    by (cases rule: enqueue_cases) (use assms(1) in \<open>auto simp: idle_inv_def\<close>)
next
  case Dtor
  from Dtor(2) show ?thesis
    by (cases rule: destructor_cases) (use assms(1) in \<open>auto simp: idle_inv_def notify_all_def\<close>)
qed

subsection \<open>All together\<close>

lemma pool_inv_init: "pool_inv (ThreadPool n)"
  unfolding pool_inv_def
  by (intro conjI mutex_inv_init)
    (simp_all add: guard_inv_def stop_inv_def fifo_inv_def submitted_def conserve_inv_def in_flight_init
      drain_inv_def join_inv_def awake_inv_def ThreadPool_simps)

lemma pool_inv_step: "pool_inv s \<Longrightarrow> step a s = Inr s' \<Longrightarrow> pool_inv s'"
  unfolding pool_inv_def
  by (intro conjI)
    (blast intro: mutex_inv_step guard_inv_step stop_inv_step fifo_inv_step conserve_inv_step
      drain_inv_step join_inv_step awake_inv_step)+

lemma pool_inv_run: "run as (ThreadPool n) = Inr s \<Longrightarrow> pool_inv s"
  by (rule run_invariant[where P = pool_inv]) (auto intro: pool_inv_init pool_inv_step)

lemma idle_inv_run:
  assumes "n \<le> 0" "run as (ThreadPool n) = Inr s"
  shows "idle_inv s"
  by (rule run_invariant[OF assms(2), where P = idle_inv])
    (use assms(1) idle_inv_step in \<open>auto simp: idle_inv_def ThreadPool_simps\<close>)

lemma fifo_run:
  assumes "run as (ThreadPool n) = Inr s"
  shows "map snd (submitted s) = map snd (popped s) @ jobs s"
  using pool_inv_run[OF assms] by (simp add: pool_inv_def fifo_inv_def)

lemma prefix_of_append_eq:
  assumes "xs @ ys = zs @ ws" "length xs \<le> length zs"
  shows "prefix xs zs"
proof -
  from assms(1) have "take (length xs) (zs @ ws) = xs"
    by (metis append_eq_conv_conj)
  with assms(2) have "take (length xs) zs = xs" by simp
  then show ?thesis by (metis take_is_prefix)
qed

lemma drained:
  assumes "pool_inv s" "workers s \<noteq> []" "\<forall>k<length (workers s). workers s ! k = W_Returned"
  shows "prefix (map snd (early s)) (map snd (popped s))"
    and "mset (executed s) = mset (popped s)"
proof -
  from assms(2,3) have "\<exists>w<length (workers s). workers s ! w = W_Returned"
    by (cases "workers s") auto
  with assms(1) have le: "length (early s) \<le> length (popped s)"
    by (simp add: pool_inv_def drain_inv_def)
  from assms(1) have "map snd (early s) @ map snd (late s) = map snd (popped s) @ jobs s"
    by (simp add: pool_inv_def fifo_inv_def submitted_def)
  from prefix_of_append_eq[OF this] le show "prefix (map snd (early s)) (map snd (popped s))"
    by simp
  from assms(1) in_flight_returned[OF assms(3)] show "mset (executed s) = mset (popped s)"
    by (simp add: pool_inv_def conserve_inv_def)
qed

lemma test_guard:
  assumes "run as (ThreadPool n) = Inr s" "w < length (workers s)" "workers s ! w = W_Test"
  shows "stop s \<or> jobs s \<noteq> []"
  using pool_inv_run[OF assms(1)] assms(2,3) by (simp add: pool_inv_def guard_inv_def)

lemma fetch_nonempty:
  assumes "run as (ThreadPool n) = Inr s" "w < length (workers s)" "workers s ! w = W_Fetch"
  shows "jobs s \<noteq> []" "mu s = Some (Worker w)"
proof -
  have inv: "pool_inv s" by (rule pool_inv_run[OF assms(1)])
  then show "jobs s \<noteq> []" using assms(2,3) by (simp add: pool_inv_def guard_inv_def)
  from inv have "mutex_inv s" by (simp add: pool_inv_def)
  from mutex_inv_worker_owner[OF this assms(2)] assms(3) show "mu s = Some (Worker w)" by simp
qed

lemma step_pop_on_empty:
  assumes "step a s = Inl Pop_on_empty"
  obtains w where "a = Work w" "w < length (workers s)" "workers s ! w = W_Fetch" "jobs s = []"
proof (cases a)
  case (Work w)
  with assms have "worker_loop w s = Inl Pop_on_empty" by simp
  then have "w < length (workers s)" "workers s ! w = W_Fetch" "jobs s = []"
    by (auto simp: worker_loop_def split: if_splits wpc.splits list.splits)
  with Work that show ?thesis by blast
next
  case (Wake w)
  with assms show ?thesis by (simp add: spurious_def split: if_splits)
next
  case (Call c job)
  with assms show ?thesis by (simp add: call_enqueue_def split: option.splits)
next
  case (Enq c ch)
  with assms show ?thesis
    by (simp add: enqueue_def split: option.splits epc.splits if_splits)
next
  case Dtor
  with assms show ?thesis by (simp add: destructor_def split: dpc.splits if_splits)
qed

lemma run_no_pop_on_empty: "run as (ThreadPool n) \<noteq> Inl Pop_on_empty"
proof (induction as rule: rev_induct)
  case Nil
  then show ?case by simp
next
  case (snoc a as)
  show ?case
  proof (cases "run as (ThreadPool n)")
    case (Inl e)
    with snoc show ?thesis by (simp add: run_append)
  next
    case (Inr s)
    have "step a s \<noteq> Inl Pop_on_empty"
    proof
      assume "step a s = Inl Pop_on_empty"
      then obtain w where "w < length (workers s)" "workers s ! w = W_Fetch" "jobs s = []"
        by (rule step_pop_on_empty)
      with fetch_nonempty(1)[OF Inr] show False by blast
    qed
    with Inr show ?thesis by (cases "step a s") (simp_all add: run_append)
  qed
qed

lemma push_tail:
  assumes "run as (ThreadPool n) = Inr s" "callers s c = Some (E_Push job)"
    "enqueue c ch s = Inr s'"
  shows "jobs s' = jobs s @ [job] \<and> submitted s' = submitted s @ [(c, job)]"
proof -
  have "stop_inv s" using pool_inv_run[OF assms(1)] by (simp add: pool_inv_def)
  then have "\<not> stop s \<Longrightarrow> late s = []" by (simp add: stop_inv_def)
  with assms(2,3) show ?thesis
    by (auto simp: enqueue_def submitted_def)
qed

lemma pop_head:
  assumes "workers s ! w = W_Fetch" "worker_loop w s = Inr s'"
  shows "\<exists>job. jobs s = job # jobs s' \<and> popped s' = popped s @ [(w, job)]"
  using assms(2) by (cases rule: worker_loop_cases) (use assms(1) in auto)

lemma returns_step:
  assumes "step a s = Inr s'" "w < length (workers s)" "workers s ! w \<noteq> W_Returned"
  shows "(workers s' ! w = W_Returned) =
         (a = Work w \<and> workers s ! w = W_Test \<and> stop s \<and> jobs s = [])"
  using assms(1)
proof (cases rule: step_cases)
  case (Work v)
  from Work(2) show ?thesis
    by (cases rule: worker_loop_cases) (use assms(2,3) Work(1) in \<open>auto simp: nth_list_update\<close>)
next
  case (Wake v)
  from Wake(2) show ?thesis
    by (cases rule: spurious_cases) (use assms(2,3) Wake(1) in \<open>auto simp: nth_list_update\<close>)
next
  case (Call c job)
  from Call(2) show ?thesis
    by (cases rule: call_enqueue_cases) (use assms(2,3) Call(1) in auto)
next
  case (Enq c ch)
  from Enq(2) show ?thesis
    by (cases rule: enqueue_cases) (use assms(2,3) Enq(1) in \<open>auto simp: nth_list_update\<close>)
next
  case Dtor
  from Dtor(2) show ?thesis
    by (cases rule: destructor_cases) (use assms(2,3) Dtor(1) in \<open>auto simp: nth_notify_all\<close>)
qed

lemma returned_step:
  assumes "step a s = Inr s'" "w < length (workers s)" "workers s ! w = W_Returned"
  shows "workers s' ! w = W_Returned"
  using assms(1)
proof (cases rule: step_cases)
  case (Work v)
  from Work(2) show ?thesis
    by (cases rule: worker_loop_cases) (use assms(2,3) in \<open>auto simp: nth_list_update\<close>)
next
  case (Wake v)
  from Wake(2) show ?thesis
    by (cases rule: spurious_cases) (use assms(2,3) in \<open>auto simp: nth_list_update\<close>)
next
  case (Call c job)
  from Call(2) show ?thesis
    by (cases rule: call_enqueue_cases) (use assms(2,3) in auto)
next
  case (Enq c ch)
  from Enq(2) show ?thesis
    by (cases rule: enqueue_cases) (use assms(2,3) in \<open>auto simp: nth_list_update\<close>)
next
  case Dtor
  from Dtor(2) show ?thesis
    by (cases rule: destructor_cases) (use assms(2,3) in \<open>auto simp: nth_notify_all\<close>)
qed

lemma jobs_after_return:
  assumes "step a s = Inr s'" "a = Work w" "workers s ! w = W_Test" "stop s" "jobs s = []"
  shows "jobs s' = []"
  using assms by (auto simp: worker_loop_def split: if_splits)

lemma wait_step:
  assumes "step a s = Inr s'" "w < length (workers s)"
  shows "((phase_of (workers s ! w) = Waiting \<and> phase_of (workers s' ! w) \<noteq> Waiting) =
          (a = Work w \<and> workers s ! w = W_Wait \<and> (stop s \<or> jobs s \<noteq> []))) \<and>
         (a = Work w \<and> workers s ! w = W_Wait \<longrightarrow>
            workers s' ! w = (if stop s \<or> jobs s \<noteq> [] then W_Test else W_Blocked)) \<and>
         (workers s ! w = W_Blocked \<longrightarrow>
            workers s' ! w = W_Blocked \<or> workers s' ! w = W_Woken) \<and>
         (workers s ! w = W_Woken \<longrightarrow>
            workers s' ! w = W_Woken \<or> workers s' ! w = W_Wait)"
  using assms(1)
proof (cases rule: step_cases)
  case (Work v)
  from Work(2) show ?thesis
    by (cases rule: worker_loop_cases) (use assms(2) Work(1) in \<open>auto simp: nth_list_update\<close>)
next
  case (Wake v)
  from Wake(2) show ?thesis
    by (cases rule: spurious_cases) (use assms(2) Wake(1) in \<open>auto simp: nth_list_update\<close>)
next
  case (Call c job)
  from Call(2) show ?thesis
    by (cases rule: call_enqueue_cases) (use assms(2) Call(1) in auto)
next
  case (Enq c ch)
  from Enq(2) show ?thesis
    by (cases rule: enqueue_cases) (use assms(2) Enq(1) in \<open>auto simp: nth_list_update\<close>)
next
  case Dtor
  from Dtor(2) show ?thesis
    by (cases rule: destructor_cases) (use assms(2) Dtor(1) in \<open>auto simp: nth_notify_all\<close>)
qed

lemma enqueue_run:
  assumes "workers s = []" "callers s c = None" "mu s = None"
  shows "\<exists>s'. run [Call c job, Enq c None, Enq c None, Enq c None, Enq c None] s = Inr s' \<and>
              jobs s' = jobs s @ [job] \<and> callers s' c = None \<and> mu s' = None"
  using assms
  by (cases "stop s") (simp_all add: call_enqueue_def enqueue_def notify_one_def)

lemma destructor_run:
  assumes "workers s = []" "dtor s = D_Lock" "mu s = None"
  shows "\<exists>s'. run [Dtor, Dtor, Dtor, Dtor, Dtor] s = Inr s' \<and> dtor s' = D_Returned \<and>
              jobs s' = jobs s \<and> executed s' = executed s"
  using assms by (simp add: destructor_def notify_all_def)

lemma test_step:
  assumes "w < length (workers s)" "workers s ! w = W_Test"
  shows "\<exists>t. step (Work w) s = Inr t \<and>
           (if stop s \<and> jobs s = []
            then workers t ! w = W_Returned \<and> jobs t = [] \<and> mu t = None
            else workers t ! w = W_Fetch \<and> jobs t = jobs s \<and> mu t = mu s)"
  using assms by (simp add: worker_loop_def)

lemma returned_disabled:
  assumes "w < length (workers s)" "workers s ! w = W_Returned"
  shows "step (Work w) s = Inl Not_enabled"
  using assms by (simp add: worker_loop_def)

lemma wait_enabled:
  assumes "w < length (workers s)"
  shows "(workers s ! w = W_Wait \<longrightarrow>
            (\<exists>t. step (Work w) s = Inr t \<and>
               (if stop s \<or> jobs s \<noteq> []
                then workers t ! w = W_Test \<and> mu t = mu s
                else workers t ! w = W_Blocked \<and> mu t = None))) \<and>
         (workers s ! w = W_Blocked \<longrightarrow>
            step (Work w) s = Inl Not_enabled \<and>
            (\<exists>t. step (Wake w) s = Inr t \<and> workers t ! w = W_Woken)) \<and>
         (workers s ! w = W_Woken \<longrightarrow>
            (if mu s = None
             then \<exists>t. step (Work w) s = Inr t \<and> workers t ! w = W_Wait \<and>
                    mu t = Some (Worker w) \<and> stop t = stop s \<and> jobs t = jobs s
             else step (Work w) s = Inl Not_enabled))"
  using assms by (simp add: worker_loop_def spurious_def)

lemma destructor_enabled:
  assumes "join_inv s"
  shows "(case dtor s of
            D_Lock \<Rightarrow>
              (if mu s = None
               then \<exists>s'. destructor s = Inr s' \<and> mu s' = Some Destroyer \<and>
                      stop s' = stop s \<and> dtor s' = D_Stop
               else destructor s = Inl Not_enabled)
          | D_Stop \<Rightarrow>
              (\<exists>s'. destructor s = Inr s' \<and> stop s' \<and> mu s' = mu s \<and> dtor s' = D_Unlock)
          | D_Unlock \<Rightarrow>
              (\<exists>s'. destructor s = Inr s' \<and> mu s' = None \<and> stop s' = stop s \<and>
                    dtor s' = D_Notify)
          | D_Notify \<Rightarrow>
              (\<exists>s'. destructor s = Inr s' \<and> workers s' = notify_all (workers s) \<and>
                    (\<forall>k<length (workers s'). workers s' ! k \<noteq> W_Blocked) \<and>
                    dtor s' = D_Join 0)
          | D_Join i \<Rightarrow>
              (if i < length (workers s)
               then if workers s ! i = W_Returned
                    then \<exists>s'. destructor s = Inr s' \<and> workers s' = workers s \<and>
                           dtor s' = D_Join (i + 1)
                    else destructor s = Inl Not_enabled
               else \<exists>s'. destructor s = Inr s' \<and> workers s' = workers s \<and>
                      dtor s' = D_Returned)
          | D_Returned \<Rightarrow> destructor s = Inl Not_enabled)"
proof (cases "dtor s")
  case (D_Join i)
  with assms have "i < length (workers s) \<Longrightarrow> joinable s ! i"
    by (simp add: join_inv_def)
  with D_Join show ?thesis by (simp add: destructor_def)
qed (simp_all add: destructor_def notify_all_awake)

lemma pop_positions:
  assumes "map snd sub = map snd pop @ q" "k < length pop"
  shows "k < length sub \<and> snd (pop ! k) = snd (sub ! k)"
proof -
  from assms(1) have "length sub = length pop + length q"
    by (metis length_append length_map)
  with assms(2) have k: "k < length sub" by simp
  from assms have "map snd sub ! k = map snd pop ! k"
    by (simp add: nth_append)
  with k assms(2) show ?thesis by simp
qed

lemma jobs_of_filter:
  assumes "\<forall>e\<in>set log. P (snd e) = (fst e = c)"
  shows "jobs_of c log = filter P (map snd log)"
proof -
  have "filter (\<lambda>e. fst e = c) log = filter (\<lambda>e. P (snd e)) log"
    using assms by (intro filter_cong) auto
  then show ?thesis by (simp add: jobs_of_def filter_map comp_def)
qed

section \<open>The scenarios, evaluated\<close>

text \<open>
  The evaluation of a concrete run unfolds these definitions.
\<close>

lemmas eval_defs =
  ThreadPool_def members_def spawn.simps worker_loop_def spurious_def call_enqueue_def
  enqueue_def destructor_def notify_one_def notify_all_def

lemma scenario1_run: "run scenario1 (ThreadPool 1) = Inr final1"
  by (simp add: final1_def scenario1_def eval_defs)

lemma final1_simps:
  "stop final1" "workers final1 = [W_Returned]" "jobs final1 = []" "mu final1 = None"
  "dtor final1 = D_Returned" "early final1 = [(0, 7)]" "late final1 = []"
  "popped final1 = [(0, 7)]" "executed final1 = [(0, 7)]"
  by (simp_all add: final1_def scenario1_def eval_defs)

lemma scenario2_run: "run scenario2 (ThreadPool 1) = Inr before2"
  by (simp add: before2_def scenario2_def scenario1_def eval_defs)

lemma before2_simps:
  "workers before2 = [W_Test]" "stop before2" "jobs before2 = []"
  by (simp_all add: before2_def scenario2_def scenario1_def eval_defs)

lemma scenario2_step: "step (Work 0) before2 = Inr after2"
  by (simp add: after2_def worker_loop_def before2_simps)

lemma after2_simps:
  "workers after2 = [W_Returned]" "jobs after2 = []"
  by (simp_all add: after2_def worker_loop_def before2_simps)

lemma after2_logs:
  "early after2 = [(0, 7)]" "popped after2 = [(0, 7)]" "executed after2 = [(0, 7)]"
  by (simp_all add: after2_def before2_def scenario2_def scenario1_def eval_defs)

lemma scenario3_run:
  "run (take 2 scenario3) (ThreadPool 1) = Inr (state3 2)"
  "run (take 3 scenario3) (ThreadPool 1) = Inr (state3 3)"
  "run (take 4 scenario3) (ThreadPool 1) = Inr (state3 4)"
  "run (take 10 scenario3) (ThreadPool 1) = Inr (state3 10)"
  "run (take 11 scenario3) (ThreadPool 1) = Inr (state3 11)"
  by (simp_all add: state3_def scenario3_def eval_defs)

lemma scenario3_step:
  "step (Wake 0) (state3 2) = Inr (state3 3)"
  "step (Work 0) (state3 3) = Inr (state3 4)"
  "step (Work 0) (state3 4) = Inr (state3 5)"
  "step (Enq 0 (Some 0)) (state3 9) = Inr (state3 10)"
  "step (Work 0) (state3 10) = Inr (state3 11)"
  "step (Work 0) (state3 11) = Inr (state3 12)"
  by (simp_all add: state3_def scenario3_def eval_defs)

lemma state3_workers:
  "workers (state3 2) = [W_Blocked]" "workers (state3 3) = [W_Woken]"
  "workers (state3 4) = [W_Wait]" "workers (state3 5) = [W_Blocked]"
  "workers (state3 9) = [W_Blocked]" "workers (state3 10) = [W_Woken]"
  "workers (state3 11) = [W_Wait]" "workers (state3 12) = [W_Test]"
  by (simp_all add: state3_def scenario3_def eval_defs)

lemma state3_shared:
  "mu (state3 3) = None" "\<not> stop (state3 4)" "jobs (state3 4) = []"
  "mu (state3 10) = None" "\<not> stop (state3 11)" "jobs (state3 11) = [7]"
  by (simp_all add: state3_def scenario3_def eval_defs)

lemma scenario4_run:
  "run (take 7 scenario4) (ThreadPool 2) = Inr (state4 7)"
  "run (take 8 scenario4) (ThreadPool 2) = Inr (state4 8)"
  "run (take 9 scenario4) (ThreadPool 2) = Inr (state4 9)"
  "run (take 10 scenario4) (ThreadPool 2) = Inr (state4 10)"
  "run (take 11 scenario4) (ThreadPool 2) = Inr (state4 11)"
  by (simp_all add: state4_def scenario4_def eval_defs)

lemma state4_simps:
  "stop (state4 7)" "callers (state4 7) 0 = None"
  "mu (state4 8) = None" "callers (state4 8) 0 = Some (E_Lock 7)"
  "stop (state4 9)" "callers (state4 9) 0 = Some (E_Push 7)" "jobs (state4 9) = []"
  "callers (state4 10) 0 = Some E_Unlock" "jobs (state4 10) = [7]"
  "callers (state4 11) 0 = Some E_Notify" "workers (state4 11) = [W_Blocked, W_Blocked]"
  by (simp_all add: state4_def scenario4_def eval_defs)

lemma state4_notify:
  "enqueue 0 (Some 0) (state4 11) = Inr (state4 12)"
  "workers (state4 12) = [W_Woken, W_Blocked]"
  by (simp_all add: state4_def scenario4_def eval_defs)

lemma scenario5_run:
  "run (take 4 scenario5) (ThreadPool 2) = Inr (state5 4)"
  "run (take 5 scenario5) (ThreadPool 2) = Inr (state5 5)"
  "run (take 6 scenario5) (ThreadPool 2) = Inr (state5 6)"
  "run (take 7 scenario5) (ThreadPool 2) = Inr (state5 7)"
  "run (take 14 scenario5) (ThreadPool 2) = Inr (state5 14)"
  "run (take 15 scenario5) (ThreadPool 2) = Inr (state5 15)"
  "run (take 16 scenario5) (ThreadPool 2) = Inr (state5 16)"
  by (simp_all add: state5_def scenario5_def eval_defs)

lemma scenario5_step:
  "destructor (state5 4) = Inr (state5 5)"
  "destructor (state5 5) = Inr (state5 6)"
  "destructor (state5 6) = Inr (state5 7)"
  "destructor (state5 7) = Inr (state5 8)"
  "destructor (state5 14) = Inr (state5 15)"
  "destructor (state5 15) = Inr (state5 16)"
  "destructor (state5 16) = Inr (state5 17)"
  by (simp_all add: state5_def scenario5_def eval_defs)

lemma state5_dtor:
  "dtor (state5 4) = D_Lock" "dtor (state5 5) = D_Stop" "dtor (state5 6) = D_Unlock"
  "dtor (state5 7) = D_Notify" "dtor (state5 14) = D_Join 0" "dtor (state5 15) = D_Join 1"
  "dtor (state5 16) = D_Join 2"
  by (simp_all add: state5_def scenario5_def eval_defs)

lemma state5_workers:
  "workers (state5 7) = [W_Blocked, W_Blocked]" "workers (state5 8) = [W_Woken, W_Woken]"
  "workers (state5 16) = [W_Returned, W_Returned]"
  by (simp_all add: state5_def scenario5_def eval_defs)

lemma scenario6_run: "run scenario6 (ThreadPool 1) = Inr state6"
  by (simp add: state6_def scenario6_def scenario1_def eval_defs)

lemma state6_simps: "workers state6 = [W_Fetch]" "jobs state6 = [7]" "mu state6 = Some (Worker 0)"
  by (simp_all add: state6_def scenario6_def scenario1_def eval_defs)

lemma scenario8_run: "run scenario8 (ThreadPool 2) = Inr state8"
  by (simp add: state8_def scenario8_def eval_defs)

lemma state8_simps:
  "submitted state8 = [(0, 7), (0, 8), (1, 9)]" "popped state8 = [(0, 7), (1, 8)]"
  "jobs state8 = [9]"
  by (simp_all add: submitted_def state8_def scenario8_def eval_defs)

lemma scenario8b_run: "run scenario8b (ThreadPool 2) = Inr state8b"
  by (simp add: state8b_def scenario8b_def eval_defs)

lemma state8b_simps:
  "submitted state8b = [(0, 7), (0, 8)]" "popped state8b = [(0, 7), (1, 8)]"
  "workers state8b = [W_Job 7, W_Lock]" "executed state8b = [(1, 8)]"
  by (simp_all add: submitted_def state8b_def scenario8b_def eval_defs)

lemma scenario10_run: "run scenario10 (ThreadPool 0) = Inr state10"
  by (simp add: state10_def scenario10_def eval_defs)

lemma state10_simps: "dtor state10 = D_Lock" "mu state10 = None" "jobs state10 = [7]"
  by (simp_all add: state10_def scenario10_def eval_defs)

lemma final10_run: "run [Dtor, Dtor, Dtor, Dtor, Dtor] state10 = Inr final10"
  by (simp add: final10_def state10_def scenario10_def eval_defs)

lemma final10_simps: "dtor final10 = D_Returned" "jobs final10 = [7]" "executed final10 = []"
  by (simp_all add: final10_def state10_def scenario10_def eval_defs)

lemma scenario10_destroyed:
  "run (scenario10 @ [Dtor, Dtor, Dtor, Dtor, Dtor]) (ThreadPool 0) = Inr final10"
  by (simp add: run_append scenario10_run final10_run del: run.simps)

lemma final10_logs: "early final10 = [(0, 7)]" "late final10 = []" "popped final10 = []"
  by (simp_all add: final10_def state10_def scenario10_def eval_defs)

section \<open>The claims\<close>

text \<open>
  C1 (no loss, no duplication), for a pool constructed with at least one worker. In every
  run, once the destructor has returned: the jobs pushed while the stop flag was still
  false (\<open>early\<close>, in push order) are an initial segment of the jobs popped, so none of
  them is lost; the jobs popped are an initial segment of all jobs pushed, so no pushed
  job is popped twice; and the log of executions equals the log of pops as a multiset of
  (worker, job) entries, so every popped job was executed once, by the worker that popped
  it. When no job was pushed after the flag was set, the jobs executed are exactly the
  jobs submitted, each as often as it was submitted.
\<close>

theorem no_loss_no_duplication:
  assumes "run as (ThreadPool n) = Inr s" and "1 \<le> n" and "dtor s = D_Returned"
  shows "prefix (map snd (early s)) (map snd (popped s)) \<and>
         prefix (map snd (popped s)) (map snd (submitted s)) \<and>
         mset (executed s) = mset (popped s) \<and>
         (late s = [] \<longrightarrow> mset (map snd (executed s)) = mset (map snd (early s)))"
proof -
  have inv: "pool_inv s" by (rule pool_inv_run[OF assms(1)])
  have len: "length (workers s) = nat n" by (rule length_workers_run[OF assms(1)])
  with assms(2) have ne: "workers s \<noteq> []" by auto
  from inv assms(3) have all: "\<forall>k<length (workers s). workers s ! k = W_Returned"
    by (simp add: pool_inv_def join_inv_def)
  note d = drained[OF inv ne all]
  have p2: "prefix (map snd (popped s)) (map snd (submitted s))"
    by (simp add: fifo_run[OF assms(1)])
  have "mset (map snd (executed s)) = mset (map snd (early s))" if "late s = []"
  proof -
    from that p2 have "prefix (map snd (popped s)) (map snd (early s))"
      by (simp add: submitted_def)
    with d(1) have "map snd (popped s) = map snd (early s)"
      by (simp add: prefix_order.antisym)
    moreover have "mset (map snd (executed s)) = mset (map snd (popped s))"
      using d(2) by (metis mset_map)
    ultimately show ?thesis by simp
  qed
  with d p2 show ?thesis by simp
qed

theorem no_loss_no_duplication_witness:
  "run scenario1 (ThreadPool 1) = Inr final1 \<and> dtor final1 = D_Returned \<and>
   early final1 = [(0, 7)] \<and> late final1 = [] \<and> executed final1 = [(0, 7)] \<and>
   mset (executed final1) = mset (popped final1) \<and>
   mset (map snd (executed final1)) = mset (map snd (early final1))"
  using no_loss_no_duplication[OF scenario1_run _ final1_simps(5)]
  by (simp add: scenario1_run final1_simps)

text \<open>
  Without a worker the statement of C1 fails: the constructor accepts \<open>numOfWorkers = 0\<close>,
  job 7 is pushed before the flag is set, the destructor returns, and the job has not been
  executed.
\<close>

theorem no_loss_counterexample:
  "run (scenario10 @ [Dtor, Dtor, Dtor, Dtor, Dtor]) (ThreadPool 0) = Inr final10 \<and>
   dtor final10 = D_Returned \<and> early final10 = [(0, 7)] \<and> late final10 = [] \<and>
   executed final10 = [] \<and>
   \<not> mset (map snd (early final10)) \<subseteq># mset (map snd (executed final10))"
  by (simp add: scenario10_destroyed final10_simps final10_logs)

text \<open>
  C2 (when a worker stops). In every reachable state \<open>s\<close>: a worker at the test of
  line 44 (so \<^verbatim>\<open>cv.wait\<close> has just returned) owns the mutex and its step is enabled; the
  step makes it return, releasing the mutex with the queue empty, when the stop flag is
  set and the queue is empty, and leads to the fetch otherwise. A worker that has
  returned has no further step. For every step from \<open>s\<close>: a worker that has not returned
  has returned after the step exactly when the step is its own, it stands at the test of
  line 44 and it finds the stop flag set and the queue empty; the queue is then still
  empty after the step; and a worker that has returned stays returned. Consequently, in
  the state where the last worker has returned, every job pushed while the flag was false
  has been popped, and every popped job has been executed by the worker that popped it.
\<close>

theorem worker_stops_iff:
  assumes "run as (ThreadPool n) = Inr s" and "w < length (workers s)"
  shows "(workers s ! w = W_Test \<longrightarrow>
            mu s = Some (Worker w) \<and>
            (\<exists>t. step (Work w) s = Inr t \<and>
               (if stop s \<and> jobs s = []
                then workers t ! w = W_Returned \<and> jobs t = [] \<and> mu t = None
                else workers t ! w = W_Fetch \<and> jobs t = jobs s \<and> mu t = mu s))) \<and>
         (workers s ! w = W_Returned \<longrightarrow> step (Work w) s = Inl Not_enabled) \<and>
         (step a s = Inr s' \<longrightarrow>
            (workers s ! w \<noteq> W_Returned \<longrightarrow>
               (workers s' ! w = W_Returned) =
               (a = Work w \<and> workers s ! w = W_Test \<and> stop s \<and> jobs s = []) \<and>
               (workers s' ! w = W_Returned \<longrightarrow> jobs s' = [])) \<and>
            (workers s ! w = W_Returned \<longrightarrow> workers s' ! w = W_Returned) \<and>
            (workers s' \<noteq> [] \<and> (\<forall>v<length (workers s'). workers s' ! v = W_Returned) \<longrightarrow>
               prefix (map snd (early s')) (map snd (popped s')) \<and>
               mset (executed s') = mset (popped s')))"
proof -
  have inv0: "pool_inv s" by (rule pool_inv_run[OF assms(1)])
  then have m: "mutex_inv s" by (simp add: pool_inv_def)
  have 0: "mu s = Some (Worker w)" if "workers s ! w = W_Test"
    using mutex_inv_worker_owner[OF m assms(2)] that by simp
  note e = test_step[OF assms(2)] returned_disabled[OF assms(2)]
  have 1: "(workers s' ! w = W_Returned) =
           (a = Work w \<and> workers s ! w = W_Test \<and> stop s \<and> jobs s = [])"
    if "step a s = Inr s'" "workers s ! w \<noteq> W_Returned"
    by (rule returns_step[OF that(1) assms(2) that(2)])
  have 2: "jobs s' = []"
    if "step a s = Inr s'" "workers s ! w \<noteq> W_Returned" "workers s' ! w = W_Returned"
    using 1[OF that(1,2)] that(3) jobs_after_return[OF that(1)] by blast
  have 3: "workers s' ! w = W_Returned"
    if "step a s = Inr s'" "workers s ! w = W_Returned"
    by (rule returned_step[OF that(1) assms(2) that(2)])
  have 4: "prefix (map snd (early s')) (map snd (popped s')) \<and>
           mset (executed s') = mset (popped s')"
    if "step a s = Inr s'" "workers s' \<noteq> []"
      "\<forall>v<length (workers s'). workers s' ! v = W_Returned"
    using drained[OF pool_inv_step[OF inv0 that(1)] that(2,3)] by simp
  from 0 e 1 2 3 4 show ?thesis by blast
qed

theorem worker_stops_iff_witness:
  "run scenario2 (ThreadPool 1) = Inr before2 \<and> step (Work 0) before2 = Inr after2 \<and>
   workers before2 ! 0 = W_Test \<and> stop before2 \<and> jobs before2 = [] \<and>
   mu before2 = Some (Worker 0) \<and>
   workers after2 ! 0 = W_Returned \<and> jobs after2 = [] \<and>
   step (Work 0) after2 = Inl Not_enabled \<and>
   prefix (map snd (early after2)) (map snd (popped after2)) \<and>
   mset (executed after2) = mset (popped after2)"
proof -
  have l: "(0::nat) < length (workers before2)" by (simp add: before2_simps)
  note t = worker_stops_iff[OF scenario2_run l, of "Work 0" after2]
  have a: "mu before2 = Some (Worker 0)"
    using t before2_simps(1) by simp
  have b: "prefix (map snd (early after2)) (map snd (popped after2))"
    "mset (executed after2) = mset (popped after2)"
    using t scenario2_step after2_simps(1) by simp_all
  have c: "step (Work 0) after2 = Inl Not_enabled"
    by (simp add: worker_loop_def after2_simps)
  from a b c scenario2_run scenario2_step show ?thesis
    by (simp add: before2_simps after2_simps)
qed

text \<open>
  C3 (the wake condition). In every reachable state: a worker at the wait predicate
  (sequence point \<open>W_Wait\<close>) owns the mutex and its step is enabled; the step leads to line
  44 when \<open>stop \<or> jobs \<noteq> []\<close> holds, and otherwise releases the mutex and blocks. A blocked
  worker has no step of its own, and can be woken (spuriously, at any time). A woken worker
  is only blocked while the mutex is owned: when the mutex is free its step is enabled,
  takes the mutex and stands at the predicate again, with the flag and the queue as they
  are. For every step from the state: a worker leaves the Waiting states exactly when the
  step is its own evaluation of the predicate and the predicate holds; a blocked worker
  can only stay blocked or be woken, and a woken worker can only stay woken or stand at
  the predicate: no wake-up, notified or spurious, passes \<^verbatim>\<open>cv.wait\<close> without a new
  evaluation. A Waiting worker whose predicate is false is still Waiting after any step.
\<close>

theorem wake_condition:
  assumes "run as (ThreadPool n) = Inr s" and "w < length (workers s)"
  shows "(workers s ! w = W_Wait \<longrightarrow>
            mu s = Some (Worker w) \<and>
            (\<exists>t. step (Work w) s = Inr t \<and>
               (if stop s \<or> jobs s \<noteq> []
                then workers t ! w = W_Test \<and> mu t = mu s
                else workers t ! w = W_Blocked \<and> mu t = None))) \<and>
         (workers s ! w = W_Blocked \<longrightarrow>
            step (Work w) s = Inl Not_enabled \<and>
            (\<exists>t. step (Wake w) s = Inr t \<and> workers t ! w = W_Woken)) \<and>
         (workers s ! w = W_Woken \<longrightarrow>
            (if mu s = None
             then \<exists>t. step (Work w) s = Inr t \<and> workers t ! w = W_Wait \<and>
                    mu t = Some (Worker w) \<and> stop t = stop s \<and> jobs t = jobs s
             else step (Work w) s = Inl Not_enabled)) \<and>
         (step a s = Inr s' \<longrightarrow>
            ((phase_of (workers s ! w) = Waiting \<and> phase_of (workers s' ! w) \<noteq> Waiting) =
             (a = Work w \<and> workers s ! w = W_Wait \<and> (stop s \<or> jobs s \<noteq> []))) \<and>
            (a = Work w \<and> workers s ! w = W_Wait \<longrightarrow>
               workers s' ! w = (if stop s \<or> jobs s \<noteq> [] then W_Test else W_Blocked)) \<and>
            (workers s ! w = W_Blocked \<longrightarrow>
               workers s' ! w = W_Blocked \<or> workers s' ! w = W_Woken) \<and>
            (workers s ! w = W_Woken \<longrightarrow>
               workers s' ! w = W_Woken \<or> workers s' ! w = W_Wait) \<and>
            (phase_of (workers s ! w) = Waiting \<and> \<not> (stop s \<or> jobs s \<noteq> []) \<longrightarrow>
               phase_of (workers s' ! w) = Waiting))"
proof -
  have "mutex_inv s" using pool_inv_run[OF assms(1)] by (simp add: pool_inv_def)
  then have 0: "mu s = Some (Worker w)" if "workers s ! w = W_Wait"
    using mutex_inv_worker_owner[of s w] assms(2) that by simp
  note e = wait_enabled[OF assms(2)]
  have 1: "((phase_of (workers s ! w) = Waiting \<and> phase_of (workers s' ! w) \<noteq> Waiting) =
            (a = Work w \<and> workers s ! w = W_Wait \<and> (stop s \<or> jobs s \<noteq> []))) \<and>
           (a = Work w \<and> workers s ! w = W_Wait \<longrightarrow>
              workers s' ! w = (if stop s \<or> jobs s \<noteq> [] then W_Test else W_Blocked)) \<and>
           (workers s ! w = W_Blocked \<longrightarrow>
              workers s' ! w = W_Blocked \<or> workers s' ! w = W_Woken) \<and>
           (workers s ! w = W_Woken \<longrightarrow>
              workers s' ! w = W_Woken \<or> workers s' ! w = W_Wait)"
    if "step a s = Inr s'"
    by (rule wait_step[OF that assms(2)])
  have 2: "phase_of (workers s' ! w) = Waiting"
    if "step a s = Inr s'" "phase_of (workers s ! w) = Waiting" "\<not> (stop s \<or> jobs s \<noteq> [])"
    using 1[OF that(1)] that(2,3) by blast
  from 0 e 1 2 show ?thesis by blast
qed

theorem wake_condition_witness:
  "workers (state3 2) ! 0 = W_Blocked \<and> step (Wake 0) (state3 2) = Inr (state3 3) \<and>
   workers (state3 3) ! 0 = W_Woken \<and> mu (state3 3) = None \<and>
   step (Work 0) (state3 3) = Inr (state3 4) \<and>
   workers (state3 4) ! 0 = W_Wait \<and> mu (state3 4) = Some (Worker 0) \<and>
   \<not> stop (state3 4) \<and> jobs (state3 4) = [] \<and>
   step (Work 0) (state3 4) = Inr (state3 5) \<and> workers (state3 5) ! 0 = W_Blocked \<and>
   workers (state3 9) ! 0 = W_Blocked \<and>
   step (Enq 0 (Some 0)) (state3 9) = Inr (state3 10) \<and>
   workers (state3 10) ! 0 = W_Woken \<and> mu (state3 10) = None \<and>
   step (Work 0) (state3 10) = Inr (state3 11) \<and>
   workers (state3 11) ! 0 = W_Wait \<and> mu (state3 11) = Some (Worker 0) \<and>
   \<not> stop (state3 11) \<and> jobs (state3 11) = [7] \<and>
   step (Work 0) (state3 11) = Inr (state3 12) \<and> workers (state3 12) ! 0 = W_Test"
proof -
  have l: "(0::nat) < length (workers (state3 4))" "(0::nat) < length (workers (state3 11))"
    by (simp_all add: state3_workers)
  have a: "mu (state3 4) = Some (Worker 0)"
    using wake_condition[OF scenario3_run(3) l(1), of "Work 0" "state3 5"] state3_workers(3)
    by simp
  have b: "mu (state3 11) = Some (Worker 0)"
    using wake_condition[OF scenario3_run(5) l(2), of "Work 0" "state3 12"] state3_workers(7)
    by simp
  show ?thesis
    using a b by (simp add: scenario3_step state3_workers state3_shared del: step.simps)
qed

text \<open>
  C4 (enqueue). In every reachable state, whatever the stop flag and the destructor's
  progress: a thread outside \<^verbatim>\<open>enqueue\<close> can call it; at the \<^verbatim>\<open>lock_guard\<close> the call proceeds
  when the mutex is free and is otherwise only blocked; at the push the caller owns the
  mutex and no other thread is inside a critical section, the step is enabled, it appends
  the job at the tail (the queue grows by exactly one) and wakes nobody yet; the unlock
  releases the mutex; at \<^verbatim>\<open>notify_one\<close> the step is enabled for some choice of the woken
  worker, and every such step ends the call, leaves the queue unchanged and wakes exactly
  one blocked worker if there is any (none otherwise), never all of them. No branch of
  \<^verbatim>\<open>enqueue\<close> rejects the job.
\<close>

theorem enqueue_always_succeeds:
  assumes "run as (ThreadPool n) = Inr s"
  shows "(callers s c = None \<longrightarrow>
            (\<exists>s'. call_enqueue c job s = Inr s' \<and> callers s' c = Some (E_Lock job))) \<and>
         (callers s c = Some (E_Lock job) \<longrightarrow>
            (if mu s = None
             then \<exists>s'. enqueue c ch s = Inr s' \<and> callers s' c = Some (E_Push job) \<and>
                    mu s' = Some (Caller c) \<and> jobs s' = jobs s
             else enqueue c ch s = Inl Not_enabled)) \<and>
         (callers s c = Some (E_Push job) \<longrightarrow>
            mu s = Some (Caller c) \<and> (\<forall>t. critical s t \<longrightarrow> t = Caller c) \<and>
            (\<exists>s'. enqueue c ch s = Inr s' \<and> jobs s' = jobs s @ [job] \<and>
                  length (jobs s') = length (jobs s) + 1 \<and> workers s' = workers s \<and>
                  callers s' c = Some E_Unlock)) \<and>
         (callers s c = Some E_Unlock \<longrightarrow>
            (\<exists>s'. enqueue c ch s = Inr s' \<and> mu s' = None \<and> jobs s' = jobs s \<and>
                  workers s' = workers s \<and> callers s' c = Some E_Notify)) \<and>
         (callers s c = Some E_Notify \<longrightarrow>
            (\<exists>ch' s'. enqueue c ch' s = Inr s') \<and>
            (\<forall>s'. enqueue c ch s = Inr s' \<longrightarrow>
                  callers s' c = None \<and> jobs s' = jobs s \<and>
                  (if W_Blocked \<in> set (workers s)
                   then \<exists>w<length (workers s).
                          workers s ! w = W_Blocked \<and> workers s' = (workers s)[w := W_Woken]
                   else workers s' = workers s)))"
proof -
  have m: "mutex_inv s" using pool_inv_run[OF assms(1)] by (simp add: pool_inv_def)
  have 1: "\<exists>s'. call_enqueue c job s = Inr s' \<and> callers s' c = Some (E_Lock job)"
    if "callers s c = None"
    using that by (simp add: call_enqueue_def)
  have 2: "if mu s = None
           then \<exists>s'. enqueue c ch s = Inr s' \<and> callers s' c = Some (E_Push job) \<and>
                  mu s' = Some (Caller c) \<and> jobs s' = jobs s
           else enqueue c ch s = Inl Not_enabled"
    if "callers s c = Some (E_Lock job)"
    using that by (simp add: enqueue_def)
  have 3: "mu s = Some (Caller c) \<and> (\<forall>t. critical s t \<longrightarrow> t = Caller c) \<and>
           (\<exists>s'. enqueue c ch s = Inr s' \<and> jobs s' = jobs s @ [job] \<and>
                 length (jobs s') = length (jobs s) + 1 \<and> workers s' = workers s \<and>
                 callers s' c = Some E_Unlock)"
    if "callers s c = Some (E_Push job)"
  proof -
    from that have o: "mu s = Some (Caller c)"
      using mutex_inv_caller_owner[OF m, of c] by simp
    then have "\<forall>t. critical s t \<longrightarrow> t = Caller c"
      using critical_unique[OF m] by blast
    moreover from that have "\<exists>s'. enqueue c ch s = Inr s' \<and> jobs s' = jobs s @ [job] \<and>
        length (jobs s') = length (jobs s) + 1 \<and> workers s' = workers s \<and>
        callers s' c = Some E_Unlock"
      by (simp add: enqueue_def)
    ultimately show ?thesis using o by blast
  qed
  have 4: "\<exists>s'. enqueue c ch s = Inr s' \<and> mu s' = None \<and> jobs s' = jobs s \<and>
                workers s' = workers s \<and> callers s' c = Some E_Notify"
    if "callers s c = Some E_Unlock"
    using that by (simp add: enqueue_def)
  have 5: "\<exists>ch' s'. enqueue c ch' s = Inr s'" if "callers s c = Some E_Notify"
  proof -
    from notify_one_enabled obtain ch' ws' where "notify_one ch' (workers s) = Some ws'"
      by blast
    with that have "enqueue c ch' s = Inr (s\<lparr>workers := ws', callers := (callers s)(c := None)\<rparr>)"
      by (simp add: enqueue_def)
    then show ?thesis by blast
  qed
  have 6: "callers s' c = None \<and> jobs s' = jobs s \<and>
           (if W_Blocked \<in> set (workers s)
            then \<exists>w<length (workers s).
                   workers s ! w = W_Blocked \<and> workers s' = (workers s)[w := W_Woken]
            else workers s' = workers s)"
    if "callers s c = Some E_Notify" "enqueue c ch s = Inr s'" for s'
  proof -
    from that obtain ws' where n: "notify_one ch (workers s) = Some ws'"
      and s': "s' = s\<lparr>workers := ws', callers := (callers s)(c := None)\<rparr>"
      by (auto simp: enqueue_def split: option.splits)
    from notify_one_wakes_one[OF n] s' show ?thesis by simp
  qed
  from 1 2 3 4 5 6 show ?thesis by blast
qed

theorem enqueue_always_succeeds_witness:
  "stop (state4 7) \<and> callers (state4 7) 0 = None \<and>
   (\<exists>s'. call_enqueue 0 7 (state4 7) = Inr s' \<and> callers s' 0 = Some (E_Lock 7)) \<and>
   callers (state4 8) 0 = Some (E_Lock 7) \<and> mu (state4 8) = None \<and>
   (\<exists>s'. enqueue 0 None (state4 8) = Inr s' \<and> mu s' = Some (Caller 0)) \<and>
   stop (state4 9) \<and> callers (state4 9) 0 = Some (E_Push 7) \<and>
   mu (state4 9) = Some (Caller 0) \<and>
   (\<exists>s'. enqueue 0 None (state4 9) = Inr s' \<and> jobs s' = jobs (state4 9) @ [7]) \<and>
   callers (state4 10) 0 = Some E_Unlock \<and>
   (\<exists>s'. enqueue 0 None (state4 10) = Inr s' \<and> mu s' = None) \<and>
   callers (state4 11) 0 = Some E_Notify \<and>
   workers (state4 11) = [W_Blocked, W_Blocked] \<and>
   enqueue 0 (Some 0) (state4 11) = Inr (state4 12) \<and>
   workers (state4 12) = [W_Woken, W_Blocked] \<and> callers (state4 12) 0 = None"
proof -
  have a: "\<exists>s'. call_enqueue 0 7 (state4 7) = Inr s' \<and> callers s' 0 = Some (E_Lock 7)"
    using enqueue_always_succeeds[OF scenario4_run(1), of 0 7 None] state4_simps(2) by blast
  have "if mu (state4 8) = None
        then \<exists>s'. enqueue 0 None (state4 8) = Inr s' \<and> callers s' 0 = Some (E_Push 7) \<and>
               mu s' = Some (Caller 0) \<and> jobs s' = jobs (state4 8)
        else enqueue 0 None (state4 8) = Inl Not_enabled"
    using enqueue_always_succeeds[OF scenario4_run(2), of 0 7 None] state4_simps(4) by blast
  then have b: "\<exists>s'. enqueue 0 None (state4 8) = Inr s' \<and> mu s' = Some (Caller 0)"
    unfolding state4_simps(3) by auto
  have c: "mu (state4 9) = Some (Caller 0)"
    "\<exists>s'. enqueue 0 None (state4 9) = Inr s' \<and> jobs s' = jobs (state4 9) @ [7]"
    using enqueue_always_succeeds[OF scenario4_run(3), of 0 7 None] state4_simps(6) by blast+
  have d: "\<exists>s'. enqueue 0 None (state4 10) = Inr s' \<and> mu s' = None"
    using enqueue_always_succeeds[OF scenario4_run(4), of 0 7 None] state4_simps(8) by blast
  have e: "callers (state4 12) 0 = None"
    using enqueue_always_succeeds[OF scenario4_run(5), of 0 7 "Some 0"] state4_simps(10)
      state4_notify(1) by blast
  show ?thesis
    by (intro conjI a b c d e state4_simps state4_notify)
qed

text \<open>
  C5 (shutdown). In every reachable state, by the sequence point of the destructor, its
  step is enabled and does the following. At the lock the flag is still false; the step is
  enabled when the mutex is free (and only blocked otherwise), makes the destructor the
  owner and leaves the flag false. At line 99 the destructor owns the mutex, no other
  thread is inside a critical section, and the step sets the flag while keeping the mutex.
  At the end of the scope the flag is set and the step releases the mutex. At
  \<^verbatim>\<open>notify_all\<close> the flag is set, the mutex is no longer the destructor's, and after the
  step no worker is blocked: all of them were woken. In the join loop the flag is set, no
  worker is blocked and the workers before the index have returned; at an index inside the
  vector the step is enabled when that worker has returned and blocked as long as it has
  not; past the end every worker has returned and the step leaves the loop. After the
  destructor has returned every worker has returned, and there is no further step.
\<close>

theorem shutdown_order:
  assumes "run as (ThreadPool n) = Inr s"
  shows "(case dtor s of
            D_Lock \<Rightarrow>
              \<not> stop s \<and>
              (if mu s = None
               then \<exists>s'. destructor s = Inr s' \<and> mu s' = Some Destroyer \<and>
                      \<not> stop s' \<and> dtor s' = D_Stop
               else destructor s = Inl Not_enabled)
          | D_Stop \<Rightarrow>
              mu s = Some Destroyer \<and> (\<forall>t. critical s t \<longrightarrow> t = Destroyer) \<and> \<not> stop s \<and>
              (\<exists>s'. destructor s = Inr s' \<and> stop s' \<and> mu s' = Some Destroyer \<and>
                    dtor s' = D_Unlock)
          | D_Unlock \<Rightarrow>
              stop s \<and> mu s = Some Destroyer \<and>
              (\<exists>s'. destructor s = Inr s' \<and> mu s' = None \<and> stop s' \<and> dtor s' = D_Notify)
          | D_Notify \<Rightarrow>
              stop s \<and> mu s \<noteq> Some Destroyer \<and>
              (\<exists>s'. destructor s = Inr s' \<and> workers s' = notify_all (workers s) \<and>
                    (\<forall>k<length (workers s'). workers s' ! k \<noteq> W_Blocked) \<and>
                    dtor s' = D_Join 0)
          | D_Join i \<Rightarrow>
              stop s \<and> mu s \<noteq> Some Destroyer \<and>
              (\<forall>k<length (workers s). workers s ! k \<noteq> W_Blocked) \<and>
              (\<forall>k<i. workers s ! k = W_Returned) \<and>
              (if i < length (workers s)
               then if workers s ! i = W_Returned
                    then \<exists>s'. destructor s = Inr s' \<and> workers s' = workers s \<and>
                           dtor s' = D_Join (i + 1)
                    else destructor s = Inl Not_enabled
               else (\<forall>k<length (workers s). workers s ! k = W_Returned) \<and>
                    (\<exists>s'. destructor s = Inr s' \<and> workers s' = workers s \<and>
                          dtor s' = D_Returned))
          | D_Returned \<Rightarrow>
              (\<forall>k<length (workers s). workers s ! k = W_Returned) \<and>
              destructor s = Inl Not_enabled)"
proof -
  have inv: "pool_inv s" by (rule pool_inv_run[OF assms(1)])
  then have m: "mutex_inv s" and st: "stop_inv s" and j: "join_inv s" and aw: "awake_inv s"
    by (simp_all add: pool_inv_def)
  have d: "(mu s = Some Destroyer) = dheld (dtor s)"
    using m[unfolded mutex_inv_def, rule_format, of Destroyer] by simp
  note e = destructor_enabled[OF j]
  show ?thesis
  proof (cases "dtor s")
    case D_Lock
    with e st show ?thesis by (auto simp: stop_inv_def)
  next
    case D_Stop
    with d have o: "mu s = Some Destroyer" by simp
    then have "\<forall>t. critical s t \<longrightarrow> t = Destroyer"
      using critical_unique[OF m] by blast
    with D_Stop o st e show ?thesis by (auto simp: stop_inv_def)
  next
    case D_Unlock
    with d st e show ?thesis by (auto simp: stop_inv_def)
  next
    case D_Notify
    with d st e show ?thesis by (simp add: stop_inv_def)
  next
    case (D_Join i)
    with j have "i \<le> length (workers s)" "\<forall>k<i. workers s ! k = W_Returned"
      by (simp_all add: join_inv_def)
    with D_Join d st aw e show ?thesis
      by (auto simp: stop_inv_def awake_inv_def)
  next
    case D_Returned
    with j e show ?thesis by (simp add: join_inv_def)
  qed
qed

theorem shutdown_order_witness:
  "destructor (state5 4) = Inr (state5 5) \<and> dtor (state5 4) = D_Lock \<and>
   mu (state5 5) = Some Destroyer \<and> \<not> stop (state5 5) \<and>
   destructor (state5 5) = Inr (state5 6) \<and> dtor (state5 5) = D_Stop \<and>
   stop (state5 6) \<and> mu (state5 6) = Some Destroyer \<and>
   destructor (state5 6) = Inr (state5 7) \<and> dtor (state5 6) = D_Unlock \<and>
   mu (state5 7) \<noteq> Some Destroyer \<and>
   destructor (state5 7) = Inr (state5 8) \<and> dtor (state5 7) = D_Notify \<and>
   workers (state5 7) = [W_Blocked, W_Blocked] \<and> workers (state5 8) = [W_Woken, W_Woken] \<and>
   dtor (state5 8) = D_Join 0 \<and> destructor (state5 8) = Inl Not_enabled \<and>
   destructor (state5 14) = Inr (state5 15) \<and> dtor (state5 14) = D_Join 0 \<and>
   workers (state5 14) ! 0 = W_Returned \<and>
   destructor (state5 15) = Inr (state5 16) \<and> dtor (state5 15) = D_Join 1 \<and>
   destructor (state5 16) = Inr (state5 17) \<and> dtor (state5 16) = D_Join 2 \<and>
   workers (state5 16) = [W_Returned, W_Returned] \<and>
   dtor (state5 17) = D_Returned \<and> destructor (state5 17) = Inl Not_enabled"
proof -
  have r8: "run (take 8 scenario5) (ThreadPool 2) = Inr (state5 8)"
    and r17: "run scenario5 (ThreadPool 2) = Inr (state5 17)"
    by (simp_all add: state5_def scenario5_def eval_defs)
  have d8: "dtor (state5 8) = D_Join 0" and w8: "workers (state5 8) = [W_Woken, W_Woken]"
    and d17: "dtor (state5 17) = D_Returned"
    by (simp_all add: state5_def scenario5_def eval_defs)
  have a: "mu (state5 5) = Some Destroyer" "\<not> stop (state5 5)"
    using shutdown_order[OF scenario5_run(2)] by (simp_all add: state5_dtor(2))
  have b: "stop (state5 6)" "mu (state5 6) = Some Destroyer"
    using shutdown_order[OF scenario5_run(3)] by (simp_all add: state5_dtor(3))
  have c: "mu (state5 7) \<noteq> Some Destroyer"
    using shutdown_order[OF scenario5_run(4)] by (simp add: state5_dtor(4))
  have d: "destructor (state5 8) = Inl Not_enabled"
    using shutdown_order[OF r8] by (simp add: d8 w8)
  have e: "workers (state5 14) ! 0 = W_Returned"
    by (simp add: state5_def scenario5_def eval_defs)
  have f: "destructor (state5 17) = Inl Not_enabled"
    using shutdown_order[OF r17] by (simp add: d17)
  show ?thesis
    by (intro conjI a b c d d8 d17 e f scenario5_step state5_dtor state5_workers)
qed

text \<open>
  C6 (no pop on an empty queue). No run of the pool from its constructor ends in
  \<^verbatim>\<open>front\<close>/\<^verbatim>\<open>pop\<close> on an empty queue. In every reachable state, a worker at the test of
  line 44 has the wait predicate true, and a worker at lines 48-49 owns the mutex and finds
  the queue non-empty: its step takes the head of the queue and leaves the tail.
\<close>

theorem pop_only_nonempty:
  "run as (ThreadPool n) \<noteq> Inl Pop_on_empty \<and>
   (\<forall>s w. run as (ThreadPool n) = Inr s \<and> w < length (workers s) \<longrightarrow>
      (workers s ! w = W_Test \<longrightarrow> stop s \<or> jobs s \<noteq> []) \<and>
      (workers s ! w = W_Fetch \<longrightarrow> jobs s \<noteq> [] \<and> mu s = Some (Worker w) \<and>
         worker_loop w s =
         Inr (s\<lparr>jobs := tl (jobs s), workers := (workers s)[w := W_Unlock (hd (jobs s))],
                popped := popped s @ [(w, hd (jobs s))]\<rparr>)))"
proof (intro conjI allI impI; (elim conjE)?)
  show "run as (ThreadPool n) \<noteq> Inl Pop_on_empty" by (rule run_no_pop_on_empty)
next
  fix s w
  assume "run as (ThreadPool n) = Inr s" "w < length (workers s)" "workers s ! w = W_Test"
  then show "stop s \<or> jobs s \<noteq> []" by (rule test_guard)
next
  fix s w
  assume a: "run as (ThreadPool n) = Inr s" "w < length (workers s)" "workers s ! w = W_Fetch"
  then show "jobs s \<noteq> []" by (rule fetch_nonempty(1))
  from a show "mu s = Some (Worker w)" by (rule fetch_nonempty(2))
  from fetch_nonempty(1)[OF a] a(2,3)
  show "worker_loop w s =
        Inr (s\<lparr>jobs := tl (jobs s), workers := (workers s)[w := W_Unlock (hd (jobs s))],
               popped := popped s @ [(w, hd (jobs s))]\<rparr>)"
    by (cases "jobs s") (simp_all add: worker_loop_def)
qed

theorem pop_only_nonempty_witness:
  "run scenario6 (ThreadPool 1) = Inr state6 \<and> workers state6 ! 0 = W_Fetch \<and>
   jobs state6 = [7] \<and> jobs state6 \<noteq> [] \<and> mu state6 = Some (Worker 0) \<and>
   run (scenario6 @ [Work 0]) (ThreadPool 1) \<noteq> Inl Pop_on_empty"
proof -
  have "jobs state6 \<noteq> []"
    using pop_only_nonempty[of scenario6 1] scenario6_run state6_simps(1) by simp
  moreover have "run (scenario6 @ [Work 0]) (ThreadPool 1) \<noteq> Inl Pop_on_empty"
    using pop_only_nonempty[of "scenario6 @ [Work 0]" 1] by blast
  ultimately show ?thesis by (simp add: scenario6_run state6_simps)
qed

text \<open>
  C7 (construction). For \<open>numOfWorkers \<ge> 1\<close> the constructor returns a pool with
  exactly \<open>numOfWorkers\<close> worker threads, each joinable and at the top of \<^verbatim>\<open>worker_loop\<close>,
  the stop flag false, the queue empty, the mutex free and the destructor not started.
  (That the operating system can start that many threads is taken for granted.)
\<close>

theorem constructor_spawns:
  assumes "1 \<le> n"
  shows "int (length (workers (ThreadPool n))) = n \<and>
         workers (ThreadPool n) = replicate (nat n) W_Lock \<and>
         joinable (ThreadPool n) = replicate (nat n) True \<and>
         \<not> stop (ThreadPool n) \<and> jobs (ThreadPool n) = [] \<and>
         mu (ThreadPool n) = None \<and> dtor (ThreadPool n) = D_Lock"
  using assms by (simp add: ThreadPool_simps)

theorem constructor_spawns_witness:
  "int (length (workers (ThreadPool 2 :: nat pool))) = 2 \<and>
   workers (ThreadPool 2 :: nat pool) = [W_Lock, W_Lock] \<and>
   \<not> stop (ThreadPool 2 :: nat pool) \<and> jobs (ThreadPool 2 :: nat pool) = []"
  using constructor_spawns[of 2, where ?'a = nat] by (simp add: eval_defs)

text \<open>
  C8 (FIFO), for the order of dequeuing. In every reachable state the jobs pushed so far,
  in push order, are the jobs popped so far, in pop order, followed by the queue: the
  \<open>k\<close>-th job dequeued is the \<open>k\<close>-th job pushed, and the pushes not yet dequeued are the
  queue. So when the jobs of a calling thread \<open>c\<close> can be told from the others (by a
  predicate \<open>P\<close> on jobs), the jobs of \<open>c\<close> in the order it submitted them are its jobs
  among those dequeued, in dequeue order, followed by its jobs in the queue. The push of
  \<^verbatim>\<open>enqueue\<close> appends at the tail of the queue (and of the log), and the fetch of
  \<^verbatim>\<open>worker_loop\<close> removes the head.
\<close>

theorem fifo_order:
  assumes "run as (ThreadPool n) = Inr s"
  shows "map snd (submitted s) = map snd (popped s) @ jobs s \<and>
         (\<forall>k<length (popped s).
            k < length (submitted s) \<and> snd (popped s ! k) = snd (submitted s ! k)) \<and>
         map snd (drop (length (popped s)) (submitted s)) = jobs s \<and>
         ((\<forall>e\<in>set (submitted s). P (snd e) = (fst e = c)) \<longrightarrow>
            jobs_of c (submitted s) = filter P (map snd (popped s)) @ filter P (jobs s)) \<and>
         (\<forall>s'. callers s c = Some (E_Push job) \<and> enqueue c ch s = Inr s' \<longrightarrow>
            jobs s' = jobs s @ [job] \<and> submitted s' = submitted s @ [(c, job)]) \<and>
         (\<forall>s'. w < length (workers s) \<and> workers s ! w = W_Fetch \<and> worker_loop w s = Inr s' \<longrightarrow>
            (\<exists>head. jobs s = head # jobs s' \<and> popped s' = popped s @ [(w, head)]))"
proof -
  note f = fifo_run[OF assms]
  have 1: "\<forall>k<length (popped s).
             k < length (submitted s) \<and> snd (popped s ! k) = snd (submitted s ! k)"
    using pop_positions[OF f] by blast
  have 2: "map snd (drop (length (popped s)) (submitted s)) = jobs s"
    using arg_cong[OF f, of "drop (length (popped s))"] by (simp add: drop_map)
  have 3: "jobs_of c (submitted s) = filter P (map snd (popped s)) @ filter P (jobs s)"
    if "\<forall>e\<in>set (submitted s). P (snd e) = (fst e = c)"
    using jobs_of_filter[OF that] f by simp
  from f 1 2 3 push_tail[OF assms] pop_head show ?thesis by blast
qed

theorem fifo_order_witness:
  "run scenario8 (ThreadPool 2) = Inr state8 \<and>
   submitted state8 = [(0, 7), (0, 8), (1, 9)] \<and> popped state8 = [(0, 7), (1, 8)] \<and>
   jobs state8 = [9] \<and>
   map snd (submitted state8) = map snd (popped state8) @ jobs state8 \<and>
   jobs_of 0 (submitted state8) = [7, 8] \<and>
   filter (\<lambda>j. j \<noteq> 9) (map snd (popped state8)) @ filter (\<lambda>j. j \<noteq> 9) (jobs state8) = [7, 8]"
proof -
  have p: "\<forall>e\<in>set (submitted state8). (snd e \<noteq> 9) = (fst e = 0)"
    by (simp add: state8_simps)
  have "jobs_of 0 (submitted state8) =
        filter (\<lambda>j. j \<noteq> 9) (map snd (popped state8)) @ filter (\<lambda>j. j \<noteq> 9) (jobs state8)"
    using fifo_order[OF scenario8_run, of "\<lambda>j. j \<noteq> 9" 0] p by blast
  moreover have "map snd (submitted state8) = map snd (popped state8) @ jobs state8"
    using fifo_order[OF scenario8_run, of "\<lambda>j. j \<noteq> 9" 0] by blast
  ultimately show ?thesis
    by (simp add: scenario8_run state8_simps jobs_of_def)
qed

text \<open>
  Dequeuing is not beginning to execute. The worker releases the mutex (line 52) between
  \<^verbatim>\<open>jobs.pop()\<close> (line 49) and \<^verbatim>\<open>job()\<close> (line 55), so with two workers a later job of a thread
  can run before an earlier one: here job 8 has been executed while job 7, submitted
  first by the same thread and dequeued first, is still to be called. The statement of C8
  for the order of execution fails.
\<close>

theorem fifo_counterexample:
  "run scenario8b (ThreadPool 2) = Inr state8b \<and>
   submitted state8b = [(0, 7), (0, 8)] \<and> popped state8b = [(0, 7), (1, 8)] \<and>
   workers state8b = [W_Job 7, W_Lock] \<and> executed state8b = [(1, 8)] \<and>
   \<not> prefix (map snd (executed state8b)) (jobs_of 0 (submitted state8b))"
  by (simp add: scenario8b_run state8b_simps jobs_of_def)

text \<open>
  C9 (the stop flag is monotonic). The flag is false after construction; a step from any
  state keeps a flag that is set, and the only step that changes the flag is the
  destructor's at line 99, which sets it; so along any run from a state with the flag set
  the flag is set at the end.
\<close>

theorem stop_monotonic:
  "\<not> stop (ThreadPool n) \<and>
   (step a s = Inr s' \<longrightarrow>
      (stop s \<longrightarrow> stop s') \<and>
      (stop s' \<noteq> stop s \<longrightarrow> a = Dtor \<and> dtor s = D_Stop \<and> stop s')) \<and>
   (run as u = Inr t \<and> stop u \<longrightarrow> stop t)"
  using stop_step[of a s s'] stop_run[of as u t] ThreadPool_simps(1)[of n] by blast

theorem stop_monotonic_witness:
  "\<not> stop (ThreadPool 2 :: nat pool) \<and>
   \<not> stop (state5 5) \<and> step Dtor (state5 5) = Inr (state5 6) \<and> stop (state5 6) \<and>
   dtor (state5 5) = D_Stop \<and>
   run (drop 6 scenario5) (state5 6) = Inr (state5 17) \<and> stop (state5 17)"
proof -
  have r: "run (drop 6 scenario5) (state5 6) = Inr (state5 17)"
    by (simp add: state5_def scenario5_def eval_defs)
  have s6: "stop (state5 6)" and s5: "\<not> stop (state5 5)"
    by (simp_all add: state5_def scenario5_def eval_defs)
  have st: "step Dtor (state5 5) = Inr (state5 6)"
    using scenario5_step(2) by simp
  have "stop (state5 17)"
    using stop_monotonic[of 2 Dtor "state5 5" "state5 6" "drop 6 scenario5" "state5 6" "state5 17"]
      r s6 by blast
  moreover have "\<not> stop (ThreadPool 2 :: nat pool)"
    using stop_monotonic[of 2 Dtor "state5 5" "state5 6" "[]" "state5 6" "state5 6"] by blast
  ultimately show ?thesis
    by (intro conjI r s6 s5 st state5_dtor)
qed

text \<open>
  C10 (no validation of the worker count). For \<open>numOfWorkers \<le> 0\<close> the body of the
  constructor's loop is never executed: the constructor returns the freshly initialised
  members, a pool with no worker thread. In every state such a pool reaches there is still
  no worker, nothing has been dequeued or executed, and the queue holds every job ever
  pushed; a call of \<^verbatim>\<open>enqueue\<close> by an idle thread, run from a state with the mutex free,
  goes through and appends its job; and the destructor, run from a state with the mutex
  free, returns after five steps with the queue as it was and nothing executed.
\<close>

theorem zero_workers:
  assumes "n \<le> 0"
  shows "(ThreadPool n :: 'j pool) = members \<and> workers (ThreadPool n :: 'j pool) = [] \<and>
         (\<forall>as (s :: 'j pool). run as (ThreadPool n) = Inr s \<longrightarrow>
            workers s = [] \<and> popped s = [] \<and> executed s = [] \<and>
            jobs s = map snd (submitted s) \<and>
            (\<forall>c job. callers s c = None \<and> mu s = None \<longrightarrow>
               (\<exists>s'. run [Call c job, Enq c None, Enq c None, Enq c None, Enq c None] s = Inr s' \<and>
                     jobs s' = jobs s @ [job])) \<and>
            (dtor s = D_Lock \<and> mu s = None \<longrightarrow>
               (\<exists>s'. run [Dtor, Dtor, Dtor, Dtor, Dtor] s = Inr s' \<and> dtor s' = D_Returned \<and>
                     jobs s' = jobs s \<and> executed s' = [])))"
proof -
  from assms have 0: "(ThreadPool n :: 'j pool) = members"
    unfolding ThreadPool_def by (subst spawn.simps) simp
  from assms have 1: "workers (ThreadPool n :: 'j pool) = []" by (simp add: ThreadPool_simps)
  have 2: "workers s = [] \<and> popped s = [] \<and> executed s = [] \<and>
           jobs s = map snd (submitted s) \<and>
           (\<forall>c job. callers s c = None \<and> mu s = None \<longrightarrow>
              (\<exists>s'. run [Call c job, Enq c None, Enq c None, Enq c None, Enq c None] s = Inr s' \<and>
                    jobs s' = jobs s @ [job])) \<and>
           (dtor s = D_Lock \<and> mu s = None \<longrightarrow>
              (\<exists>s'. run [Dtor, Dtor, Dtor, Dtor, Dtor] s = Inr s' \<and> dtor s' = D_Returned \<and>
                    jobs s' = jobs s \<and> executed s' = []))"
    if r: "run as (ThreadPool n) = Inr s" for as and s :: "'j pool"
  proof -
    from idle_inv_run[OF assms r] have i: "workers s = []" "popped s = []" "executed s = []"
      by (simp_all add: idle_inv_def)
    from fifo_run[OF r] i have f: "jobs s = map snd (submitted s)" by simp
    have e: "\<exists>s'. run [Call c job, Enq c None, Enq c None, Enq c None, Enq c None] s = Inr s' \<and>
                  jobs s' = jobs s @ [job]"
      if "callers s c = None \<and> mu s = None" for c job
    proof -
      from that have "callers s c = None" "mu s = None" by simp_all
      from enqueue_run[OF i(1) this, of job] show ?thesis by auto
    qed
    have d: "\<exists>s'. run [Dtor, Dtor, Dtor, Dtor, Dtor] s = Inr s' \<and> dtor s' = D_Returned \<and>
                  jobs s' = jobs s \<and> executed s' = []"
      if "dtor s = D_Lock \<and> mu s = None"
    proof -
      from that have "dtor s = D_Lock" "mu s = None" by simp_all
      from destructor_run[OF i(1) this] i(3) show ?thesis by auto
    qed
    from i f e d show ?thesis by blast
  qed
  from 0 1 2 show ?thesis by blast
qed

theorem zero_workers_witness:
  "workers (ThreadPool 0 :: nat pool) = [] \<and>
   run scenario10 (ThreadPool 0) = Inr state10 \<and> jobs state10 = [7] \<and>
   executed state10 = [] \<and> dtor state10 = D_Lock \<and> mu state10 = None \<and>
   run [Dtor, Dtor, Dtor, Dtor, Dtor] state10 = Inr final10 \<and>
   dtor final10 = D_Returned \<and> jobs final10 = [7] \<and> executed final10 = []"
proof -
  have z: "(0::int) \<le> 0" by simp
  have "workers (ThreadPool 0 :: nat pool) = []"
    using zero_workers[OF z, where ?'j = nat] by blast
  moreover have "executed state10 = []"
    using zero_workers[OF z, where ?'j = nat] scenario10_run by blast
  ultimately show ?thesis
    by (intro conjI scenario10_run state10_simps final10_run final10_simps)
qed

end
